theory Spec2Isabelle
  imports Complex_Main "HOL-Library.Word"
begin

section \<open>The tile-based circle rasterizer of \<open>paralela/opt/src/render.cpp\<close>\<close>

text \<open>
  The C++ \<open>int\<close> values of the renderer (coordinates, radii, tile indices) are modelled as
  unbounded \<open>int\<close>: signed overflow is undefined in C++, so the model describes the
  program on the inputs on which its arithmetic stays inside the \<open>int\<close> range. Pixels are
  32-bit words. The positions of the particle store are floating-point numbers in the
  source; they are modelled as reals, and the only operation applied to them is
  \<open>std::lround\<close>.
\<close>

subsection \<open>Data\<close>

type_synonym u32 = "32 word"

text \<open>\<open>struct Framebuffer { int W, H; std::vector<uint32_t> pix; }\<close>\<close>

record Framebuffer =
  fb_W :: int
  fb_H :: int
  fb_pix :: "u32 list"

text \<open>
  Modelled from the spec: the declaration of \<open>ParticlesSOA\<close> (\<open>sim.hpp\<close>) is missing.
  The spec describes a column-oriented collection of circle particles with floating-point
  position, integer radius and packed 32-bit colour; \<open>render.cpp\<close> reads the fields
  \<open>n\<close>, \<open>x[i]\<close>, \<open>y[i]\<close>, \<open>r[i]\<close> and \<open>color[i]\<close>.
\<close>

record ParticlesSOA =
  P_n :: nat
  P_x :: "real list"
  P_y :: "real list"
  P_r :: "int list"
  P_color :: "u32 list"

text \<open>
  Every column of a well-formed store has one entry per particle: the passes read
  the entries \<open>0 .. n - 1\<close> of each column.
\<close>

definition wf_particles :: "ParticlesSOA \<Rightarrow> bool" where
  "wf_particles P \<longleftrightarrow>
     length (P_x P) = P_n P \<and> length (P_y P) = P_n P \<and>
     length (P_r P) = P_n P \<and> length (P_color P) = P_n P"

text \<open>
  The constructor of \<open>Framebuffer\<close> allocates \<open>(size_t)w * h\<close> pixels; \<open>clear\<close> fills them
  with one colour.
\<close>

definition wf_fb :: "Framebuffer \<Rightarrow> bool" where
  "wf_fb fb \<longleftrightarrow> 0 \<le> fb_W fb \<and> 0 \<le> fb_H fb \<and> length (fb_pix fb) = nat (fb_W fb * fb_H fb)"

definition clear :: "Framebuffer \<Rightarrow> u32 \<Rightarrow> Framebuffer" where
  "clear fb abgr = fb\<lparr>fb_pix := replicate (length (fb_pix fb)) abgr\<rparr>"

definition in_fb :: "Framebuffer \<Rightarrow> int \<Rightarrow> int \<Rightarrow> bool" where
  "in_fb fb x y \<longleftrightarrow> 0 \<le> x \<and> x < fb_W fb \<and> 0 \<le> y \<and> y < fb_H fb"

text \<open>The pixel at column \<open>x\<close> of row \<open>y\<close>, stored at the flat index \<open>y * W + x\<close>.\<close>

definition px :: "Framebuffer \<Rightarrow> int \<Rightarrow> int \<Rightarrow> u32" where
  "px fb x y = fb_pix fb ! nat (y * fb_W fb + x)"

subsection \<open>Arithmetic of the source\<close>

text \<open>C++ integer division truncates towards zero; \<open>%\<close> is its remainder.\<close>

definition cdiv :: "int \<Rightarrow> int \<Rightarrow> int" where
  "cdiv a b = (if (a < 0) = (b < 0) then \<bar>a\<bar> div \<bar>b\<bar> else - (\<bar>a\<bar> div \<bar>b\<bar>))"

definition cmod :: "int \<Rightarrow> int \<Rightarrow> int" where
  "cmod a b = a - b * cdiv a b"

text \<open>\<open>std::lround\<close>: to the nearest integer, halfway cases away from zero.\<close>

definition lround :: "real \<Rightarrow> int" where
  "lround v = (if 0 \<le> v then \<lfloor>v + 1 / 2\<rfloor> else \<lceil>v - 1 / 2\<rceil>)"

text \<open>
  \<open>(int)std::floor(std::sqrt((double)r * r - (double)dy * dy))\<close> on a visited row, where
  \<open>v = r * r - dy * dy \<ge> 0\<close>: the integer square root of \<open>v\<close>, computed by search so that
  it can be evaluated (\<open>sqrt_down v k\<close> is the largest \<open>j \<le> k\<close> with \<open>j * j \<le> v\<close>).

  The source computes \<open>v\<close> and its root in double precision. For \<open>r \<le> 2 ^ 26\<close> both
  products and their difference (at most \<open>2 ^ 52\<close>) are exact, the square root is correctly
  rounded and its floor is the integer square root, which \<open>floor_sqrt_is_floor_of_sqrt\<close>
  below relates to the real square root. From \<open>r = 2 ^ 26 + 1\<close> on the double computation
  yields \<open>dx = r\<close> on the rows \<open>dy = 1\<close> and \<open>dy = -1\<close>, where the integer square root is
  \<open>r - 1\<close>. So \<open>floor_sqrt\<close> is the source's \<open>dx\<close> for radii up to \<open>2 ^ 26\<close>, and the
  theorems that depend on the value of \<open>dx\<close> (the exact painted set) bound the radii by
  \<open>2 ^ 26\<close>; those about bounds, tiles, bins and orders do not depend on it.
\<close>

fun sqrt_down :: "nat \<Rightarrow> nat \<Rightarrow> nat" where
  "sqrt_down v 0 = 0"
| "sqrt_down v (Suc k) = (if Suc k * Suc k \<le> v then Suc k else sqrt_down v k)"

definition floor_sqrt :: "int \<Rightarrow> int" where
  "floor_sqrt v = int (sqrt_down (nat v) (nat v))"

subsection \<open>Loops and stores\<close>

text \<open>
  A \<open>for\<close> loop over a range runs its body on each value in turn; a body that fails (a
  store outside the pixel vector, undefined behaviour in C++) stops the run with \<open>None\<close>.
\<close>

fun for_each :: "'a list \<Rightarrow> ('a \<Rightarrow> 's \<Rightarrow> 's option) \<Rightarrow> 's \<Rightarrow> 's option" where
  "for_each [] body s = Some s"
| "for_each (v # vs) body s =
     (case body v s of None \<Rightarrow> None | Some s' \<Rightarrow> for_each vs body s')"

text \<open>
  \<open>fb.pix[row + xx] = color\<close>, with \<open>row = (size_t)yy * fb.W\<close>: the store is defined when
  the flat index lies inside the vector.
\<close>

definition store :: "Framebuffer \<Rightarrow> int \<Rightarrow> int \<Rightarrow> u32 \<Rightarrow> Framebuffer option" where
  "store fb row xx color =
     (let k = row + xx in
      if 0 \<le> k \<and> k < int (length (fb_pix fb))
      then Some (fb\<lparr>fb_pix := (fb_pix fb)[nat k := color]\<rparr>)
      else None)"

text \<open>
  \<open>putpix\<close>: a store guarded by a bounds check, which compares the coordinates and the
  dimensions as 32-bit unsigned values. The tiled pass does not call it.
\<close>

definition as_unsigned :: "int \<Rightarrow> int" where
  "as_unsigned v = v mod 2 ^ 32"

definition putpix :: "Framebuffer \<Rightarrow> int \<Rightarrow> int \<Rightarrow> u32 \<Rightarrow> Framebuffer option" where
  "putpix fb x y c =
     (if as_unsigned (fb_W fb) \<le> as_unsigned x \<or> as_unsigned (fb_H fb) \<le> as_unsigned y
      then Some fb
      else store fb (y * fb_W fb) x c)"

subsection \<open>Scanline fill of one circle, clipped to a tile\<close>

definition draw_circle_clipped_to_tile ::
  "Framebuffer \<Rightarrow> int \<Rightarrow> int \<Rightarrow> int \<Rightarrow> u32 \<Rightarrow> int \<Rightarrow> int \<Rightarrow> int \<Rightarrow> int \<Rightarrow> Framebuffer option" where
  "draw_circle_clipped_to_tile fb cx cy r color x0 y0 x1 y1 =
     (let yy_from = max (cy - r) y0;
          yy_to = min (cy + r) (y1 - 1)
      in for_each [yy_from..yy_to]
           (\<lambda>yy fb.
              let dy = yy - cy;
                  dx = floor_sqrt (r * r - dy * dy);
                  xx0 = max (cx - dx) x0;
                  xx1 = min (cx + dx) (x1 - 1);
                  row = yy * fb_W fb
              in for_each [xx0..xx1] (\<lambda>xx fb. store fb row xx color) fb)
           fb)"

text \<open>The bounds \<open>xx0\<close> and \<open>xx1\<close> of the inner loop on row \<open>yy\<close>.\<close>

definition span_lo :: "int \<Rightarrow> int \<Rightarrow> int \<Rightarrow> int \<Rightarrow> int \<Rightarrow> int" where
  "span_lo cx cy r x0 yy =
     (let dy = yy - cy; dx = floor_sqrt (r * r - dy * dy) in max (cx - dx) x0)"

definition span_hi :: "int \<Rightarrow> int \<Rightarrow> int \<Rightarrow> int \<Rightarrow> int \<Rightarrow> int" where
  "span_hi cx cy r x1 yy =
     (let dy = yy - cy; dx = floor_sqrt (r * r - dy * dy) in min (cx + dx) (x1 - 1))"

text \<open>
  The coordinates at which the loop nest executes its store, in execution order. The
  loop bounds do not depend on the pixels, so the fill is the run of these stores
  (\<open>draw_circle_is_stores\<close> below).
\<close>

definition circle_stores :: "int \<Rightarrow> int \<Rightarrow> int \<Rightarrow> int \<Rightarrow> int \<Rightarrow> int \<Rightarrow> int \<Rightarrow> (int \<times> int) list" where
  "circle_stores cx cy r x0 y0 x1 y1 =
     concat (map (\<lambda>yy. map (\<lambda>xx. (xx, yy)) [span_lo cx cy r x0 yy..span_hi cx cy r x1 yy])
                 [max (cy - r) y0..min (cy + r) (y1 - 1)])"

subsection \<open>Binning and tile dispatch\<close>

text \<open>\<open>constexpr int TILE = 32\<close>. The tile edge is a parameter of the model below.\<close>

definition TILE :: int where
  "TILE = 32"

definition tiles_x :: "int \<Rightarrow> Framebuffer \<Rightarrow> int" where
  "tiles_x T fb = cdiv (fb_W fb + T - 1) T"

definition tiles_y :: "int \<Rightarrow> Framebuffer \<Rightarrow> int" where
  "tiles_y T fb = cdiv (fb_H fb + T - 1) T"

definition total_tiles :: "int \<Rightarrow> Framebuffer \<Rightarrow> int" where
  "total_tiles T fb = tiles_x T fb * tiles_y T fb"

text \<open>
  The rounded centre of particle \<open>i\<close>, as both passes compute it: \<open>(int)std::lround(P.x[i])\<close>.
  The cast of the \<open>long\<close> result to \<open>int\<close> is the identity for positions inside the \<open>int\<close>
  range.
\<close>

definition p_cx :: "ParticlesSOA \<Rightarrow> nat \<Rightarrow> int" where
  "p_cx P i = lround (P_x P ! i)"

definition p_cy :: "ParticlesSOA \<Rightarrow> nat \<Rightarrow> int" where
  "p_cy P i = lround (P_y P ! i)"

text \<open>
  \<open>bins[k].push_back(i)\<close>. The binning loops only push to indices inside the vector
  (\<open>tile_ids_in_range\<close> below).
\<close>

definition push_back :: "nat list list \<Rightarrow> int \<Rightarrow> nat \<Rightarrow> nat list list" where
  "push_back bins k i = bins[nat k := bins ! nat k @ [i]]"

text \<open>The body of the binning loop for particle \<open>i\<close>.\<close>

definition bin_particle :: "int \<Rightarrow> ParticlesSOA \<Rightarrow> Framebuffer \<Rightarrow> nat \<Rightarrow> nat list list \<Rightarrow> nat list list" where
  "bin_particle T P fb i bins =
     (let cx = p_cx P i; cy = p_cy P i; r = P_r P ! i;
          min_tx = max 0 (cdiv (cx - r) T);
          max_tx = min (tiles_x T fb - 1) (cdiv (cx + r) T);
          min_ty = max 0 (cdiv (cy - r) T);
          max_ty = min (tiles_y T fb - 1) (cdiv (cy + r) T)
      in fold (\<lambda>ty bins. fold (\<lambda>tx bins. push_back bins (ty * tiles_x T fb + tx) i)
                               [min_tx..max_tx] bins)
              [min_ty..max_ty] bins)"

definition binning :: "int \<Rightarrow> ParticlesSOA \<Rightarrow> Framebuffer \<Rightarrow> nat list list" where
  "binning T P fb =
     fold (bin_particle T P fb) [0..<P_n P] (replicate (nat (total_tiles T fb)) [])"

text \<open>The rectangle \<open>[x0,x1) \<times> [y0,y1)\<close> of tile \<open>tid\<close>.\<close>

definition tile_x0 :: "int \<Rightarrow> Framebuffer \<Rightarrow> nat \<Rightarrow> int" where
  "tile_x0 T fb tid = cmod (int tid) (tiles_x T fb) * T"

definition tile_x1 :: "int \<Rightarrow> Framebuffer \<Rightarrow> nat \<Rightarrow> int" where
  "tile_x1 T fb tid = min (tile_x0 T fb tid + T) (fb_W fb)"

definition tile_y0 :: "int \<Rightarrow> Framebuffer \<Rightarrow> nat \<Rightarrow> int" where
  "tile_y0 T fb tid = cdiv (int tid) (tiles_x T fb) * T"

definition tile_y1 :: "int \<Rightarrow> Framebuffer \<Rightarrow> nat \<Rightarrow> int" where
  "tile_y1 T fb tid = min (tile_y0 T fb tid + T) (fb_H fb)"

text \<open>The body of the tile loop: tile \<open>tid\<close> draws the particles of its bin, in bin order.\<close>

definition process_tile ::
  "int \<Rightarrow> ParticlesSOA \<Rightarrow> nat list list \<Rightarrow> nat \<Rightarrow> Framebuffer \<Rightarrow> Framebuffer option" where
  "process_tile T P bins tid fb =
     (let x0 = tile_x0 T fb tid; x1 = tile_x1 T fb tid;
          y0 = tile_y0 T fb tid; y1 = tile_y1 T fb tid
      in for_each (bins ! tid)
           (\<lambda>idx fb. draw_circle_clipped_to_tile fb (p_cx P idx) (p_cy P idx)
                        (P_r P ! idx) (P_color P ! idx) x0 y0 x1 y1)
           fb)"

text \<open>
  The tiles processed one after the other in a given order, after the binning pass. The
  sequential branch of the source runs the tiles in ascending order; the OpenMP task loop
  may run them in any order.
\<close>

definition render_tiles_in_order ::
  "int \<Rightarrow> ParticlesSOA \<Rightarrow> nat list \<Rightarrow> Framebuffer \<Rightarrow> Framebuffer option" where
  "render_tiles_in_order T P order fb =
     for_each order (process_tile T P (binning T P fb)) fb"

definition render_circles_tiled :: "int \<Rightarrow> ParticlesSOA \<Rightarrow> Framebuffer \<Rightarrow> Framebuffer option" where
  "render_circles_tiled T P fb =
     render_tiles_in_order T P [0..<nat (total_tiles T fb)] fb"

definition render_circles_tiled_omp :: "ParticlesSOA \<Rightarrow> Framebuffer \<Rightarrow> Framebuffer option" where
  "render_circles_tiled_omp P fb = render_circles_tiled TILE P fb"

subsection \<open>The stores of a pass\<close>

text \<open>
  A run of stores \<open>(xx, yy, color)\<close>: the statement \<open>fb.pix[(size_t)yy * fb.W + xx] = color\<close>
  executed for each entry in turn.
\<close>

definition run_stores :: "(int \<times> int \<times> u32) list \<Rightarrow> Framebuffer \<Rightarrow> Framebuffer option" where
  "run_stores ss fb =
     (let W = fb_W fb in for_each ss (\<lambda>(xx, yy, c) fb'. store fb' (yy * W) xx c) fb)"

text \<open>The stores tile \<open>tid\<close> executes, and the stores of all tiles run in a given order.\<close>

definition tile_stores ::
  "int \<Rightarrow> ParticlesSOA \<Rightarrow> nat list list \<Rightarrow> Framebuffer \<Rightarrow> nat \<Rightarrow> (int \<times> int \<times> u32) list" where
  "tile_stores T P bins fb tid =
     concat (map (\<lambda>idx. map (\<lambda>(xx, yy). (xx, yy, P_color P ! idx))
                           (circle_stores (p_cx P idx) (p_cy P idx) (P_r P ! idx)
                              (tile_x0 T fb tid) (tile_y0 T fb tid)
                              (tile_x1 T fb tid) (tile_y1 T fb tid)))
                 (bins ! tid))"

definition render_stores ::
  "int \<Rightarrow> ParticlesSOA \<Rightarrow> nat list \<Rightarrow> Framebuffer \<Rightarrow> (int \<times> int \<times> u32) list" where
  "render_stores T P order fb = concat (map (tile_stores T P (binning T P fb) fb) order)"

text \<open>The pixel read back after a pass, when the pass is defined.\<close>

definition pixel_after :: "Framebuffer option \<Rightarrow> int \<Rightarrow> int \<Rightarrow> u32 option" where
  "pixel_after res x y = (case res of None \<Rightarrow> None | Some fb \<Rightarrow> Some (px fb x y))"

subsection \<open>Vocabulary of the properties\<close>

text \<open>The pixels of the integer disc of radius \<open>r\<close> around \<open>(cx, cy)\<close>.\<close>

definition in_disc :: "int \<Rightarrow> int \<Rightarrow> int \<Rightarrow> int \<Rightarrow> int \<Rightarrow> bool" where
  "in_disc cx cy r x y \<longleftrightarrow> 0 \<le> r \<and> (x - cx) * (x - cx) + (y - cy) * (y - cy) \<le> r * r"

text \<open>
  Particle \<open>i\<close> covers pixel \<open>(x, y)\<close>: the pixel lies in the integer disc of the particle.
  For a radius up to \<open>2 ^ 26\<close> these are the pixels the unclipped spans of the scanline
  fill reach.
\<close>

definition covers :: "ParticlesSOA \<Rightarrow> nat \<Rightarrow> int \<Rightarrow> int \<Rightarrow> bool" where
  "covers P i x y \<longleftrightarrow> in_disc (p_cx P i) (p_cy P i) (P_r P ! i) x y"

text \<open>
  The colour of a pixel whose colour was \<open>v\<close>, after the particles are painted over it in
  ascending index order: the colour of the last particle that covers it, if any.
\<close>

definition paint :: "ParticlesSOA \<Rightarrow> int \<Rightarrow> int \<Rightarrow> u32 \<Rightarrow> u32" where
  "paint P x y v = foldl (\<lambda>v i. if covers P i x y then P_color P ! i else v) v [0..<P_n P]"

text \<open>
  The bounding square \<open>[cx - r, cx + r] \<times> [cy - r, cy + r]\<close> of particle \<open>i\<close> has a pixel
  in common with the rectangle \<open>[x0, x1) \<times> [y0, y1)\<close>. All bounds are integers, so the two
  regions intersect exactly when they share a pixel (\<open>square_meets_iff\<close>).
\<close>

definition square_meets :: "ParticlesSOA \<Rightarrow> nat \<Rightarrow> int \<Rightarrow> int \<Rightarrow> int \<Rightarrow> int \<Rightarrow> bool" where
  "square_meets P i x0 y0 x1 y1 \<longleftrightarrow>
     max (p_cx P i - P_r P ! i) x0 \<le> min (p_cx P i + P_r P ! i) (x1 - 1) \<and>
     max (p_cy P i - P_r P ! i) y0 \<le> min (p_cy P i + P_r P ! i) (y1 - 1)"

text \<open>Pixel \<open>(x, y)\<close> lies in the rectangle of tile \<open>tid\<close>; the tile that owns a pixel.\<close>

definition in_tile :: "int \<Rightarrow> Framebuffer \<Rightarrow> nat \<Rightarrow> int \<Rightarrow> int \<Rightarrow> bool" where
  "in_tile T fb tid x y \<longleftrightarrow>
     tile_x0 T fb tid \<le> x \<and> x < tile_x1 T fb tid \<and> tile_y0 T fb tid \<le> y \<and> y < tile_y1 T fb tid"

definition tile_of :: "int \<Rightarrow> Framebuffer \<Rightarrow> int \<Rightarrow> int \<Rightarrow> nat" where
  "tile_of T fb x y = nat ((y div T) * tiles_x T fb + x div T)"

text \<open>The tile columns and rows over which the binning loops run for particle \<open>i\<close>.\<close>

definition in_tile_range :: "int \<Rightarrow> ParticlesSOA \<Rightarrow> Framebuffer \<Rightarrow> nat \<Rightarrow> int \<Rightarrow> int \<Rightarrow> bool" where
  "in_tile_range T P fb i tx ty \<longleftrightarrow>
     max 0 (cdiv (p_cx P i - P_r P ! i) T) \<le> tx \<and>
     tx \<le> min (tiles_x T fb - 1) (cdiv (p_cx P i + P_r P ! i) T) \<and>
     max 0 (cdiv (p_cy P i - P_r P ! i) T) \<le> ty \<and>
     ty \<le> min (tiles_y T fb - 1) (cdiv (p_cy P i + P_r P ! i) T)"

definition binned :: "int \<Rightarrow> ParticlesSOA \<Rightarrow> Framebuffer \<Rightarrow> nat \<Rightarrow> nat \<Rightarrow> bool" where
  "binned T P fb tid i \<longleftrightarrow>
     in_tile_range T P fb i (int tid mod tiles_x T fb) (int tid div tiles_x T fb)"

text \<open>The bin indices to which the binning loops push particle \<open>i\<close>, in loop order.\<close>

definition tile_ids :: "int \<Rightarrow> ParticlesSOA \<Rightarrow> Framebuffer \<Rightarrow> nat \<Rightarrow> int list" where
  "tile_ids T P fb i =
     map (\<lambda>(ty, tx). ty * tiles_x T fb + tx)
       (List.product
          [max 0 (cdiv (p_cy P i - P_r P ! i) T)..min (tiles_y T fb - 1) (cdiv (p_cy P i + P_r P ! i) T)]
          [max 0 (cdiv (p_cx P i - P_r P ! i) T)..min (tiles_x T fb - 1) (cdiv (p_cx P i + P_r P ! i) T)])"

text \<open>
  The framebuffer with the pixels of a set \<open>S\<close> set to \<open>c\<close>; the framebuffer after a run of
  in-bounds stores; and the value such a run leaves in pixel \<open>(x, y)\<close>. These describe
  results in the proofs; the program is the functions above.
\<close>

definition fill :: "Framebuffer \<Rightarrow> (int \<times> int) set \<Rightarrow> u32 \<Rightarrow> Framebuffer" where
  "fill fb S c =
     fb\<lparr>fb_pix := map (\<lambda>k. if (int k mod fb_W fb, int k div fb_W fb) \<in> S then c
                            else fb_pix fb ! k) [0..<length (fb_pix fb)]\<rparr>"

definition apply_stores :: "(int \<times> int \<times> u32) list \<Rightarrow> Framebuffer \<Rightarrow> Framebuffer" where
  "apply_stores ss fb = foldl (\<lambda>fb (x, y, c). fill fb {(x, y)} c) fb ss"

definition last_write :: "int \<Rightarrow> int \<Rightarrow> u32 \<Rightarrow> (int \<times> int \<times> u32) list \<Rightarrow> u32" where
  "last_write x y v ss = foldl (\<lambda>v (x', y', c). if x' = x \<and> y' = y then c else v) v ss"

definition dims_are :: "int \<Rightarrow> int \<Rightarrow> Framebuffer \<Rightarrow> bool" where
  "dims_are W H fb \<longleftrightarrow> fb_W fb = W \<and> fb_H fb = H"

subsection \<open>The untiled reference\<close>




text \<open>The particle store without particle \<open>k\<close>.\<close>

definition remove_particle :: "nat \<Rightarrow> ParticlesSOA \<Rightarrow> ParticlesSOA" where
  "remove_particle k P =
     \<lparr>P_n = P_n P - 1,
      P_x = take k (P_x P) @ drop (Suc k) (P_x P),
      P_y = take k (P_y P) @ drop (Suc k) (P_y P),
      P_r = take k (P_r P) @ drop (Suc k) (P_r P),
      P_color = take k (P_color P) @ drop (Suc k) (P_color P)\<rparr>"

subsection \<open>Concrete scenes\<close>

text \<open>
  A 64 by 64 framebuffer cleared to \<open>0x00000000\<close> (2 by 2 tiles of edge 32), and the
  particle stores of the scenarios: one particle straddling the tile boundary at
  \<open>x = 32\<close>; one particle just left of the framebuffer; one far to its right. A 40 by 40
  framebuffer, whose last tile column and row are clipped, and a particle to its right.
\<close>

definition scene_fb :: Framebuffer where
  "scene_fb = \<lparr>fb_W = 64, fb_H = 64, fb_pix = replicate 4096 0\<rparr>"

definition straddle_P :: ParticlesSOA where
  "straddle_P = \<lparr>P_n = 1, P_x = [31], P_y = [16], P_r = [10], P_color = [0xFFFFFFFF]\<rparr>"

definition offscreen_P :: ParticlesSOA where
  "offscreen_P = \<lparr>P_n = 1, P_x = [-10], P_y = [10], P_r = [5], P_color = [0xFF0000FF]\<rparr>"

definition far_P :: ParticlesSOA where
  "far_P = \<lparr>P_n = 1, P_x = [200], P_y = [10], P_r = [5], P_color = [0xFF0000FF]\<rparr>"

definition narrow_fb :: Framebuffer where
  "narrow_fb = \<lparr>fb_W = 40, fb_H = 40, fb_pix = replicate 1600 0\<rparr>"

definition beyond_P :: ParticlesSOA where
  "beyond_P = \<lparr>P_n = 1, P_x = [50], P_y = [10], P_r = [5], P_color = [0xFF0000FF]\<rparr>"

text \<open>
  Scenario 1: one white particle at \<open>(32, 32)\<close> with radius 40. Scenario 2: a red particle
  \<open>A\<close> at \<open>(10, 10)\<close> and a blue particle \<open>B\<close> at \<open>(12, 12)\<close>, both of radius 5, in the two
  insertion orders (colours in ABGR). Scenario 4: no particle. The last store holds an
  off-screen particle followed by particle \<open>B\<close>.
\<close>

definition scenario1_P :: ParticlesSOA where
  "scenario1_P = \<lparr>P_n = 1, P_x = [32], P_y = [32], P_r = [40], P_color = [0xFFFFFFFF]\<rparr>"

definition red_blue_P :: ParticlesSOA where
  "red_blue_P = \<lparr>P_n = 2, P_x = [10, 12], P_y = [10, 12], P_r = [5, 5],
                  P_color = [0xFF0000FF, 0xFFFF0000]\<rparr>"

definition blue_red_P :: ParticlesSOA where
  "blue_red_P = \<lparr>P_n = 2, P_x = [12, 10], P_y = [12, 10], P_r = [5, 5],
                  P_color = [0xFFFF0000, 0xFF0000FF]\<rparr>"

definition empty_P :: ParticlesSOA where
  "empty_P = \<lparr>P_n = 0, P_x = [], P_y = [], P_r = [], P_color = []\<rparr>"

definition two_P :: ParticlesSOA where
  "two_P = \<lparr>P_n = 2, P_x = [-10, 12], P_y = [10, 12], P_r = [5, 5],
             P_color = [0xFF0000FF, 0xFFFF0000]\<rparr>"

section \<open>Arithmetic and framebuffer lemmas\<close>

lemma cdiv_nonneg: "0 \<le> a \<Longrightarrow> 0 < b \<Longrightarrow> cdiv a b = a div b"
  by (simp add: cdiv_def)

lemma cdiv_neg_le0: "a < 0 \<Longrightarrow> 0 < b \<Longrightarrow> cdiv a b \<le> 0"
  by (simp add: cdiv_def div_int_pos_iff)

lemma cmod_nonneg: "0 \<le> a \<Longrightarrow> 0 < b \<Longrightarrow> cmod a b = a mod b"
  by (simp add: cmod_def cdiv_nonneg minus_mult_div_eq_mod)

lemma sqrt_down_sq: "sqrt_down v k * sqrt_down v k \<le> v"
  by (induction k) auto

lemma sqrt_down_max: "m \<le> k \<Longrightarrow> m * m \<le> v \<Longrightarrow> m \<le> sqrt_down v k"
proof (induction k)
  case 0 then show ?case by simp
next
  case (Suc k)
  show ?case
  proof (cases "Suc k * Suc k \<le> v")
    case True then show ?thesis using Suc.prems by simp
  next
    case False
    then have "m \<noteq> Suc k" using Suc.prems by auto
    then have "m \<le> k" using Suc.prems by simp
    then show ?thesis using False Suc by simp
  qed
qed

lemma sqrt_down_iff: "m \<le> sqrt_down v v \<longleftrightarrow> m * m \<le> v"
proof
  assume h: "m \<le> sqrt_down v v"
  have "m * m \<le> sqrt_down v v * sqrt_down v v" using h by (simp add: mult_le_mono)
  then show "m * m \<le> v" using sqrt_down_sq [of v v] by linarith
next
  assume h: "m * m \<le> v"
  have "m \<le> m * m" by (cases m) auto
  then have "m \<le> v" using h by linarith
  then show "m \<le> sqrt_down v v" using h sqrt_down_max [of m v v] by simp
qed

lemma floor_sqrt_nonneg: "0 \<le> floor_sqrt v"
  by (simp add: floor_sqrt_def)

lemma floor_sqrt_iff:
  assumes "0 \<le> v" "0 \<le> d"
  shows "d \<le> floor_sqrt v \<longleftrightarrow> d * d \<le> v"
proof -
  have "d \<le> floor_sqrt v \<longleftrightarrow> nat d \<le> sqrt_down (nat v) (nat v)"
    using assms by (simp add: floor_sqrt_def nat_le_iff)
  also have "\<dots> \<longleftrightarrow> nat d * nat d \<le> nat v" by (rule sqrt_down_iff)
  also have "\<dots> \<longleftrightarrow> d * d \<le> v"
    using assms by (metis nat_le_eq_zle nat_mult_distrib)
  finally show ?thesis .
qed

lemma floor_sqrt_is_floor_of_sqrt:
  assumes "0 \<le> v"
  shows "floor_sqrt v = \<lfloor>sqrt (real_of_int v)\<rfloor>"
proof (rule sym, rule floor_unique)
  let ?s = "floor_sqrt v"
  have s0: "0 \<le> ?s" by (rule floor_sqrt_nonneg)
  have "?s * ?s \<le> v" using floor_sqrt_iff [OF assms s0] by simp
  then have "real_of_int ?s * real_of_int ?s \<le> real_of_int v"
    by (metis of_int_le_iff of_int_mult)
  then have "(real_of_int ?s)\<^sup>2 \<le> real_of_int v" by (simp add: power2_eq_square)
  then show "real_of_int ?s \<le> sqrt (real_of_int v)"
    using s0 by (simp add: real_le_rsqrt)
  have "\<not> (?s + 1) \<le> ?s" by simp
  then have "\<not> (?s + 1) * (?s + 1) \<le> v"
    using floor_sqrt_iff [OF assms, of "?s + 1"] s0 by simp
  then have "v < (?s + 1) * (?s + 1)" by simp
  then have "real_of_int v < real_of_int ((?s + 1) * (?s + 1))" by (simp only: of_int_less_iff)
  then have "real_of_int v < (real_of_int ?s + 1)\<^sup>2" by (simp add: power2_eq_square)
  then show "sqrt (real_of_int v) < real_of_int ?s + 1"
    using s0 by (simp add: real_less_lsqrt)
qed

lemma fill_dims [simp]:
  "fb_W (fill fb S c) = fb_W fb" "fb_H (fill fb S c) = fb_H fb"
  "length (fb_pix (fill fb S c)) = length (fb_pix fb)"
  by (simp_all add: fill_def)

lemma wf_fb_fill [simp]: "wf_fb (fill fb S c) = wf_fb fb"
  by (simp add: wf_fb_def)

lemma in_fb_fill [simp]: "in_fb (fill fb S c) x y = in_fb fb x y"
  by (simp add: in_fb_def)

lemma div_lt_bound:
  assumes "0 < (b::int)" "a < n * b"
  shows "a div b < n"
proof (rule ccontr)
  assume "\<not> a div b < n"
  then have "n \<le> a div b" by simp
  then have "n * b \<le> a div b * b" using assms(1) by (simp add: mult_right_mono)
  moreover have "a div b * b + a mod b = a" by simp
  moreover have "0 \<le> a mod b" using assms(1) by simp
  ultimately show False using assms(2) by linarith
qed

lemma div_ge_bound:
  assumes "0 < (b::int)" "n * b \<le> a"
  shows "n \<le> a div b"
proof -
  have "(n * b) div b \<le> a div b" using assms by (intro zdiv_mono1)
  then show ?thesis using assms(1) by simp
qed

lemma flat_index_bounds:
  assumes "wf_fb fb" "in_fb fb x y"
  shows "0 \<le> y * fb_W fb + x" "y * fb_W fb + x < fb_W fb * fb_H fb"
proof -
  have a: "0 \<le> x" "x < fb_W fb" "0 \<le> y" "y < fb_H fb" using assms by (simp_all add: in_fb_def)
  have "0 \<le> y * fb_W fb" using a by simp
  then show "0 \<le> y * fb_W fb + x" using a by simp
  have "y + 1 \<le> fb_H fb" using a by simp
  then have "(y + 1) * fb_W fb \<le> fb_H fb * fb_W fb" using a by (intro mult_right_mono) simp_all
  then show "y * fb_W fb + x < fb_W fb * fb_H fb" using a by (simp add: algebra_simps)
qed

lemma flat_index_lt_length:
  assumes "wf_fb fb" "in_fb fb x y"
  shows "nat (y * fb_W fb + x) < length (fb_pix fb)"
  using flat_index_bounds [OF assms] assms(1) by (simp add: wf_fb_def)

lemma flat_index_mod_div:
  assumes "in_fb fb x y"
  shows "(y * fb_W fb + x) mod fb_W fb = x" "(y * fb_W fb + x) div fb_W fb = y"
  using assms by (simp_all add: in_fb_def)

lemma fill_nth:
  "k < length (fb_pix fb) \<Longrightarrow>
   fb_pix (fill fb S c) ! k =
     (if (int k mod fb_W fb, int k div fb_W fb) \<in> S then c else fb_pix fb ! k)"
  by (simp add: fill_def)

lemma px_fill:
  assumes "wf_fb fb" "in_fb fb x y"
  shows "px (fill fb S c) x y = (if (x, y) \<in> S then c else px fb x y)"
proof -
  let ?k = "nat (y * fb_W fb + x)"
  have k: "?k < length (fb_pix fb)" by (rule flat_index_lt_length [OF assms])
  have ik: "int ?k = y * fb_W fb + x" using flat_index_bounds(1) [OF assms] by simp
  have m: "int ?k mod fb_W fb = x" "int ?k div fb_W fb = y"
    unfolding ik by (rule flat_index_mod_div [OF assms(2)])+
  have "px (fill fb S c) x y = fb_pix (fill fb S c) ! ?k" by (simp add: px_def)
  also have "\<dots> = (if (int ?k mod fb_W fb, int ?k div fb_W fb) \<in> S then c else fb_pix fb ! ?k)"
    by (rule fill_nth [OF k])
  also have "\<dots> = (if (x, y) \<in> S then c else px fb x y)"
    by (simp only: m px_def)
  finally show ?thesis .
qed

lemma store_fill:
  assumes "wf_fb fb" "in_fb fb xx yy"
  shows "store fb (yy * fb_W fb) xx c = Some (fill fb {(xx, yy)} c)"
proof -
  let ?k = "yy * fb_W fb + xx"
  have k: "0 \<le> ?k" "?k < int (length (fb_pix fb))"
    using flat_index_bounds [OF assms] assms(1) by (simp_all add: wf_fb_def)
  have "(fb_pix fb)[nat ?k := c] =
        map (\<lambda>k. if (int k mod fb_W fb, int k div fb_W fb) \<in> {(xx, yy)} then c
                  else fb_pix fb ! k) [0..<length (fb_pix fb)]"
  proof (rule nth_equalityI)
    show "length ((fb_pix fb)[nat ?k := c]) = length (map (\<lambda>k. if (int k mod fb_W fb, int k div fb_W fb) \<in> {(xx, yy)} then c
                  else fb_pix fb ! k) [0..<length (fb_pix fb)])" by simp
  next
    fix j assume "j < length ((fb_pix fb)[nat ?k := c])"
    then have j: "j < length (fb_pix fb)" by simp
    have "(int j mod fb_W fb = xx \<and> int j div fb_W fb = yy) \<longleftrightarrow> j = nat ?k"
    proof
      assume h: "int j mod fb_W fb = xx \<and> int j div fb_W fb = yy"
      have "int j = int j div fb_W fb * fb_W fb + int j mod fb_W fb" by simp
      then have "int j = ?k" using h by simp
      then show "j = nat ?k" by simp
    next
      assume "j = nat ?k"
      then have "int j = ?k" using k by simp
      then show "int j mod fb_W fb = xx \<and> int j div fb_W fb = yy"
        using flat_index_mod_div [OF assms(2)] by simp
    qed
    then show "(fb_pix fb)[nat ?k := c] ! j = map (\<lambda>k. if (int k mod fb_W fb, int k div fb_W fb) \<in> {(xx, yy)} then c
                  else fb_pix fb ! k) [0..<length (fb_pix fb)] ! j"
      using j by (auto simp: nth_list_update)
  qed
  then show ?thesis using k by (simp add: store_def fill_def Let_def)
qed

lemma fb_ext:
  assumes "wf_fb fb" "wf_fb fb'" "fb_W fb' = fb_W fb" "fb_H fb' = fb_H fb"
    and eq: "\<And>x y. in_fb fb x y \<Longrightarrow> px fb' x y = px fb x y"
  shows "fb' = (fb :: Framebuffer)"
proof -
  have len: "length (fb_pix fb') = length (fb_pix fb)" using assms by (simp add: wf_fb_def)
  have "fb_pix fb' = fb_pix fb"
  proof (rule nth_equalityI [OF len])
    fix j assume "j < length (fb_pix fb')"
    then have j: "int j < fb_W fb * fb_H fb" using assms(2,3,4) by (simp add: wf_fb_def)
    have W: "0 < fb_W fb"
    proof (rule ccontr)
      assume "\<not> 0 < fb_W fb"
      then have "fb_W fb = 0" using assms(1) by (simp add: wf_fb_def)
      then show False using j by simp
    qed
    let ?x = "int j mod fb_W fb" and ?y = "int j div fb_W fb"
    have "?y < fb_H fb" using j W by (intro div_lt_bound) (simp_all add: mult.commute)
    then have inb: "in_fb fb ?x ?y" using W by (simp add: in_fb_def pos_imp_zdiv_nonneg_iff)
    have "?y * fb_W fb + ?x = int j" by simp
    then have "px fb' ?x ?y = fb_pix fb' ! j" "px fb ?x ?y = fb_pix fb ! j"
      by (simp_all add: px_def assms(3))
    then show "fb_pix fb' ! j = fb_pix fb ! j" using eq [OF inb] by simp
  qed
  then show ?thesis using assms(3,4) by simp
qed

lemma for_each_append:
  "for_each (xs @ ys) body s =
     (case for_each xs body s of None \<Rightarrow> None | Some s' \<Rightarrow> for_each ys body s')"
  by (induction xs arbitrary: s) (auto split: option.splits)

lemma for_each_map: "for_each (map g xs) body s = for_each xs (\<lambda>v. body (g v)) s"
  by (induction xs arbitrary: s) (auto split: option.splits)

lemma for_each_concat_map:
  "for_each (concat (map f xs)) body s = for_each xs (\<lambda>v s. for_each (f v) body s) s"
  by (induction xs arbitrary: s) (auto simp: for_each_append split: option.splits)

lemma for_each_inv:
  assumes step: "\<And>v s s'. I s \<Longrightarrow> body v s = Some s' \<Longrightarrow> I s'"
  shows "I s \<Longrightarrow> for_each vs body s = Some s' \<Longrightarrow> I s'"
proof (induction vs arbitrary: s)
  case Nil then show ?case by simp
next
  case (Cons v vs)
  then show ?case by (auto split: option.splits dest: step)
qed

lemma for_each_cong_inv:
  assumes eq: "\<And>v s. I s \<Longrightarrow> body v s = body' v s"
    and step: "\<And>v s s'. I s \<Longrightarrow> body v s = Some s' \<Longrightarrow> I s'"
  shows "I s \<Longrightarrow> for_each vs body s = for_each vs body' s"
proof (induction vs arbitrary: s)
  case Nil then show ?case by simp
next
  case (Cons v vs)
  show ?case
  proof (cases "body v s")
    case None
    then show ?thesis using eq [OF Cons.prems, of v] by simp
  next
    case (Some s1)
    have "I s1" using step [OF Cons.prems Some] .
    then show ?thesis using Some eq [OF Cons.prems, of v] Cons.IH by simp
  qed
qed

lemma store_dims:
  "store fb row xx c = Some fb' \<Longrightarrow> fb_W fb' = fb_W fb \<and> fb_H fb' = fb_H fb"
  by (auto simp: store_def Let_def split: if_splits)

lemma run_stores_dims:
  assumes "run_stores ss fb = Some fb'"
  shows "dims_are (fb_W fb) (fb_H fb) fb'"
proof -
  have "dims_are (fb_W fb) (fb_H fb) fb" by (simp add: dims_are_def)
  moreover have "for_each ss (\<lambda>(xx, yy, c) fb'. store fb' (yy * fb_W fb) xx c) fb = Some fb'"
    using assms by (simp add: run_stores_def)
  ultimately show ?thesis
    by (rule for_each_inv [rotated]) (auto simp: dims_are_def dest: store_dims)
qed

lemma run_stores_append:
  "run_stores (xs @ ys) fb =
     (case run_stores xs fb of None \<Rightarrow> None | Some fb' \<Rightarrow> run_stores ys fb')"
proof (cases "run_stores xs fb")
  case None
  then show ?thesis by (simp add: run_stores_def for_each_append)
next
  case (Some fb')
  have "fb_W fb' = fb_W fb" using run_stores_dims [OF Some] by (simp add: dims_are_def)
  then show ?thesis using Some by (simp add: run_stores_def for_each_append)
qed

lemma run_stores_Nil [simp]: "run_stores [] fb = Some fb"
  by (simp add: run_stores_def)

lemma run_stores_concat_map:
  "run_stores (concat (map f xs)) fb = for_each xs (\<lambda>v fb. run_stores (f v) fb) fb"
  by (induction xs arbitrary: fb) (auto simp: run_stores_append split: option.splits)

lemma draw_circle_is_stores:
  "draw_circle_clipped_to_tile fb cx cy r c x0 y0 x1 y1 =
   run_stores (map (\<lambda>(xx, yy). (xx, yy, c)) (circle_stores cx cy r x0 y0 x1 y1)) fb"
proof -
  let ?rows = "[max (cy - r) y0..min (cy + r) (y1 - 1)]"
  let ?span = "\<lambda>yy. [span_lo cx cy r x0 yy..span_hi cx cy r x1 yy]"
  let ?st = "\<lambda>(xx, yy, c) fb'. store fb' (yy * fb_W fb) xx c"
  have "draw_circle_clipped_to_tile fb cx cy r c x0 y0 x1 y1 =
        for_each ?rows (\<lambda>yy fb'. for_each (?span yy) (\<lambda>xx fb''. store fb'' (yy * fb_W fb') xx c) fb') fb"
    by (simp add: draw_circle_clipped_to_tile_def span_lo_def span_hi_def Let_def)
  also have "\<dots> = for_each ?rows (\<lambda>yy fb'. for_each (?span yy) (\<lambda>xx fb''. store fb'' (yy * fb_W fb) xx c) fb') fb"
  proof (rule for_each_cong_inv [where I = "dims_are (fb_W fb) (fb_H fb)"])
    fix yy fb' assume "dims_are (fb_W fb) (fb_H fb) fb'"
    then show "for_each (?span yy) (\<lambda>xx fb''. store fb'' (yy * fb_W fb') xx c) fb' =
               for_each (?span yy) (\<lambda>xx fb''. store fb'' (yy * fb_W fb) xx c) fb'"
      by (simp add: dims_are_def)
  next
    fix yy fb' fb''
    assume "dims_are (fb_W fb) (fb_H fb) fb'"
      and "for_each (?span yy) (\<lambda>xx fb''. store fb'' (yy * fb_W fb') xx c) fb' = Some fb''"
    then show "dims_are (fb_W fb) (fb_H fb) fb''"
      by (rule for_each_inv [rotated]) (auto simp: dims_are_def dest: store_dims)
  next
    show "dims_are (fb_W fb) (fb_H fb) fb" by (simp add: dims_are_def)
  qed
  also have "\<dots> = for_each ?rows (\<lambda>yy fb'. for_each (map (\<lambda>xx. (xx, yy, c)) (?span yy)) ?st fb') fb"
    by (simp add: for_each_map)
  also have "\<dots> = for_each (concat (map (\<lambda>yy. map (\<lambda>xx. (xx, yy, c)) (?span yy)) ?rows)) ?st fb"
    by (simp add: for_each_concat_map)
  also have "concat (map (\<lambda>yy. map (\<lambda>xx. (xx, yy, c)) (?span yy)) ?rows) =
             map (\<lambda>(xx, yy). (xx, yy, c)) (circle_stores cx cy r x0 y0 x1 y1)"
    by (simp add: circle_stores_def map_concat comp_def)
  finally show ?thesis by (simp add: run_stores_def)
qed

lemma tile_stores_dims:
  "fb_W fb' = fb_W fb \<Longrightarrow> fb_H fb' = fb_H fb \<Longrightarrow>
   tile_stores T P bins fb' tid = tile_stores T P bins fb tid"
  by (simp add: tile_stores_def tile_x0_def tile_x1_def tile_y0_def tile_y1_def tiles_x_def)

lemma process_tile_is_stores:
  "process_tile T P bins tid fb = run_stores (tile_stores T P bins fb tid) fb"
  by (simp only: process_tile_def Let_def draw_circle_is_stores tile_stores_def
      run_stores_concat_map)

lemma render_is_stores:
  "render_tiles_in_order T P order fb = run_stores (render_stores T P order fb) fb"
proof -
  let ?bins = "binning T P fb"
  have "process_tile T P ?bins = (\<lambda>tid fb'. run_stores (tile_stores T P ?bins fb' tid) fb')"
    by (intro ext) (rule process_tile_is_stores)
  then have "render_tiles_in_order T P order fb =
        for_each order (\<lambda>tid fb'. run_stores (tile_stores T P ?bins fb' tid) fb') fb"
    by (simp add: render_tiles_in_order_def)
  also have "\<dots> = for_each order (\<lambda>tid fb'. run_stores (tile_stores T P ?bins fb tid) fb') fb"
  proof (rule for_each_cong_inv [where I = "dims_are (fb_W fb) (fb_H fb)"])
    fix tid fb' assume "dims_are (fb_W fb) (fb_H fb) fb'"
    then have "tile_stores T P ?bins fb' tid = tile_stores T P ?bins fb tid"
      by (intro tile_stores_dims) (simp_all add: dims_are_def)
    then show "run_stores (tile_stores T P ?bins fb' tid) fb' =
               run_stores (tile_stores T P ?bins fb tid) fb'"
      by simp
  next
    fix tid fb' fb''
    assume "dims_are (fb_W fb) (fb_H fb) fb'"
      and "run_stores (tile_stores T P ?bins fb' tid) fb' = Some fb''"
    then show "dims_are (fb_W fb) (fb_H fb) fb''"
      using run_stores_dims [of "tile_stores T P ?bins fb' tid" fb' fb'']
      by (simp add: dims_are_def)
  next
    show "dims_are (fb_W fb) (fb_H fb) fb" by (simp add: dims_are_def)
  qed
  also have "\<dots> = run_stores (render_stores T P order fb) fb"
    by (simp add: render_stores_def run_stores_concat_map)
  finally show ?thesis .
qed

lemma apply_stores_Nil [simp]: "apply_stores [] fb = fb"
  by (simp add: apply_stores_def)

lemma apply_stores_Cons [simp]:
  "apply_stores ((x, y, c) # ss) fb = apply_stores ss (fill fb {(x, y)} c)"
  by (simp add: apply_stores_def)

lemma last_write_Nil [simp]: "last_write x y v [] = v"
  by (simp add: last_write_def)

lemma last_write_Cons [simp]:
  "last_write x y v ((x', y', c) # ss) = last_write x y (if x' = x \<and> y' = y then c else v) ss"
  by (simp add: last_write_def)

lemma apply_stores_W [simp]: "fb_W (apply_stores ss fb) = fb_W fb"
  by (induction ss arbitrary: fb) auto

lemma apply_stores_H [simp]: "fb_H (apply_stores ss fb) = fb_H fb"
  by (induction ss arbitrary: fb) auto

lemma apply_stores_length [simp]: "length (fb_pix (apply_stores ss fb)) = length (fb_pix fb)"
  by (induction ss arbitrary: fb) auto

lemma apply_stores_wf [simp]: "wf_fb (apply_stores ss fb) = wf_fb fb"
  by (simp add: wf_fb_def)

lemma apply_stores_in_fb [simp]: "in_fb (apply_stores ss fb) x y = in_fb fb x y"
  by (simp add: in_fb_def)

lemma px_apply_stores:
  "wf_fb fb \<Longrightarrow> in_fb fb x y \<Longrightarrow> px (apply_stores ss fb) x y = last_write x y (px fb x y) ss"
proof (induction ss arbitrary: fb)
  case Nil then show ?case by simp
next
  case (Cons s ss)
  obtain x' y' c where s: "s = (x', y', c)" by (cases s)
  have "px (apply_stores (s # ss) fb) x y = px (apply_stores ss (fill fb {(x', y')} c)) x y"
    by (simp add: s)
  also have "\<dots> = last_write x y (px (fill fb {(x', y')} c) x y) ss"
    using Cons.prems by (intro Cons.IH) simp_all
  also have "\<dots> = last_write x y (px fb x y) (s # ss)"
    using Cons.prems by (simp add: px_fill s)
  finally show ?case .
qed

lemma run_stores_apply:
  "wf_fb fb \<Longrightarrow> \<forall>(x, y, c) \<in> set ss. in_fb fb x y \<Longrightarrow>
   run_stores ss fb = Some (apply_stores ss fb)"
proof (induction ss arbitrary: fb)
  case Nil then show ?case by simp
next
  case (Cons s ss)
  obtain x' y' c where s: "s = (x', y', c)" by (cases s)
  have inb: "in_fb fb x' y'" using Cons.prems(2) by (simp add: s)
  have st: "run_stores [s] fb = Some (fill fb {(x', y')} c)"
    using store_fill [OF Cons.prems(1) inb, of c] by (simp add: run_stores_def s)
  have "run_stores (s # ss) fb = run_stores ([s] @ ss) fb" by simp
  also have "\<dots> = run_stores ss (fill fb {(x', y')} c)"
    unfolding run_stores_append st by simp
  also have "\<dots> = Some (apply_stores ss (fill fb {(x', y')} c))"
    using Cons.prems by (intro Cons.IH) auto
  also have "\<dots> = Some (apply_stores (s # ss) fb)" by (simp add: s)
  finally show ?case .
qed

lemma last_write_append:
  "last_write x y v (xs @ ys) = last_write x y (last_write x y v xs) ys"
  by (simp add: last_write_def)

lemma last_write_same_colour:
  "last_write x y v (map (\<lambda>(xx, yy). (xx, yy, c)) ss) = (if (x, y) \<in> set ss then c else v)"
proof (induction ss rule: rev_induct)
  case Nil then show ?case by simp
next
  case (snoc s ss)
  obtain x' y' where s: "s = (x', y')" by (cases s)
  show ?case using snoc by (simp add: last_write_append s)
qed

lemma last_write_concat:
  "last_write x y v (concat (map f xs)) = foldl (\<lambda>v a. last_write x y v (f a)) v xs"
  by (induction xs arbitrary: v) (simp_all add: last_write_append)

lemma abs_le_iff_sq: "\<bar>a\<bar> \<le> (b::int) \<longleftrightarrow> 0 \<le> b \<and> a * a \<le> b * b"
proof (cases "0 \<le> b")
  case True
  then have "\<bar>a\<bar> \<le> b \<longleftrightarrow> \<bar>a\<bar> \<le> \<bar>b\<bar>" by simp
  also have "\<dots> \<longleftrightarrow> a\<^sup>2 \<le> b\<^sup>2" by (rule abs_le_square_iff)
  finally show ?thesis using True by (simp add: power2_eq_square)
next
  case False
  then show ?thesis by simp
qed

lemma span_iff:
  assumes "cy - r \<le> y" "y \<le> cy + r"
  shows "span_lo cx cy r x0 y \<le> x \<and> x \<le> span_hi cx cy r x1 y \<longleftrightarrow>
         x0 \<le> x \<and> x < x1 \<and> (x - cx) * (x - cx) + (y - cy) * (y - cy) \<le> r * r"
proof -
  let ?v = "r * r - (y - cy) * (y - cy)"
  have "\<bar>y - cy\<bar> \<le> r" using assms by simp
  then have v: "0 \<le> ?v" by (simp add: abs_le_iff_sq)
  have "cx - floor_sqrt ?v \<le> x \<and> x \<le> cx + floor_sqrt ?v \<longleftrightarrow> \<bar>x - cx\<bar> \<le> floor_sqrt ?v"
    by auto
  also have "\<dots> \<longleftrightarrow> \<bar>x - cx\<bar> * \<bar>x - cx\<bar> \<le> ?v"
    by (rule floor_sqrt_iff [OF v]) simp
  also have "\<dots> \<longleftrightarrow> (x - cx) * (x - cx) + (y - cy) * (y - cy) \<le> r * r"
    by (simp add: abs_mult_self_eq le_diff_eq)
  finally show ?thesis by (auto simp: span_lo_def span_hi_def Let_def)
qed

lemma set_circle_stores:
  "(x, y) \<in> set (circle_stores cx cy r x0 y0 x1 y1) \<longleftrightarrow>
   x0 \<le> x \<and> x < x1 \<and> y0 \<le> y \<and> y < y1 \<and> in_disc cx cy r x y"
proof -
  have "(x, y) \<in> set (circle_stores cx cy r x0 y0 x1 y1) \<longleftrightarrow>
        (max (cy - r) y0 \<le> y \<and> y \<le> min (cy + r) (y1 - 1)) \<and>
        (span_lo cx cy r x0 y \<le> x \<and> x \<le> span_hi cx cy r x1 y)"
  proof -
    have "(x, y) \<in> set (circle_stores cx cy r x0 y0 x1 y1) \<longleftrightarrow>
          (\<exists>yy. yy \<in> {max (cy - r) y0..min (cy + r) (y1 - 1)} \<and>
                (x, y) \<in> (\<lambda>xx. (xx, yy)) ` {span_lo cx cy r x0 yy..span_hi cx cy r x1 yy})"
      by (simp add: circle_stores_def Bex_def)
    also have "\<dots> \<longleftrightarrow>
          (\<exists>yy. yy = y \<and> yy \<in> {max (cy - r) y0..min (cy + r) (y1 - 1)} \<and>
                x \<in> {span_lo cx cy r x0 yy..span_hi cx cy r x1 yy})"
      by (simp only: image_iff Pair_inject Bex_def) blast
    also have "\<dots> \<longleftrightarrow> (max (cy - r) y0 \<le> y \<and> y \<le> min (cy + r) (y1 - 1)) \<and>
        (span_lo cx cy r x0 y \<le> x \<and> x \<le> span_hi cx cy r x1 y)"
      by simp
    finally show ?thesis .
  qed
  also have "\<dots> \<longleftrightarrow> x0 \<le> x \<and> x < x1 \<and> y0 \<le> y \<and> y < y1 \<and> in_disc cx cy r x y"
  proof (cases "cy - r \<le> y \<and> y \<le> cy + r")
    case True
    then have "0 \<le> r" by simp
    then show ?thesis using True span_iff [of cy r y cx x0 x x1] by (auto simp: in_disc_def)
  next
    case False
    then have "\<not> \<bar>y - cy\<bar> \<le> r" by auto
    then have "\<not> (0 \<le> r \<and> (y - cy) * (y - cy) \<le> r * r)" by (simp add: abs_le_iff_sq)
    moreover have "0 \<le> (x - cx) * (x - cx)" by simp
    ultimately have "\<not> in_disc cx cy r x y" unfolding in_disc_def by linarith
    then show ?thesis using False by auto
  qed
  finally show ?thesis .
qed

lemma div_eq_iff_range:
  assumes "0 < (T::int)"
  shows "x div T = k \<longleftrightarrow> k * T \<le> x \<and> x < k * T + T"
proof
  assume "x div T = k"
  moreover have "x div T * T + x mod T = x" by simp
  moreover have "0 \<le> x mod T" "x mod T < T" using assms by simp_all
  ultimately show "k * T \<le> x \<and> x < k * T + T" by auto
next
  assume h: "k * T \<le> x \<and> x < k * T + T"
  have "k \<le> x div T" using h assms by (intro div_ge_bound) simp_all
  moreover have "x div T < k + 1" using h assms by (intro div_lt_bound) (simp_all add: algebra_simps)
  ultimately show "x div T = k" by simp
qed

lemma ceil_div_cover:
  assumes "0 < (T::int)"
  shows "w \<le> (w + T - 1) div T * T"
proof -
  have "(w + T - 1) div T * T + (w + T - 1) mod T = w + T - 1" by simp
  moreover have "(w + T - 1) mod T < T" using assms by simp
  ultimately show ?thesis by linarith
qed

lemma tiles_x_eq: "0 < T \<Longrightarrow> 0 \<le> fb_W fb \<Longrightarrow> tiles_x T fb = (fb_W fb + T - 1) div T"
  by (simp add: tiles_x_def cdiv_nonneg)

lemma tiles_y_eq: "0 < T \<Longrightarrow> 0 \<le> fb_H fb \<Longrightarrow> tiles_y T fb = (fb_H fb + T - 1) div T"
  by (simp add: tiles_y_def cdiv_nonneg)

lemma tiles_x_cover: "0 < T \<Longrightarrow> 0 \<le> fb_W fb \<Longrightarrow> fb_W fb \<le> tiles_x T fb * T"
  by (simp add: tiles_x_eq ceil_div_cover)

lemma tiles_y_cover: "0 < T \<Longrightarrow> 0 \<le> fb_H fb \<Longrightarrow> fb_H fb \<le> tiles_y T fb * T"
  by (simp add: tiles_y_eq ceil_div_cover)

lemma tiles_x_nonneg: "0 < T \<Longrightarrow> 0 \<le> fb_W fb \<Longrightarrow> 0 \<le> tiles_x T fb"
  by (simp add: tiles_x_eq pos_imp_zdiv_nonneg_iff)

lemma tiles_y_nonneg: "0 < T \<Longrightarrow> 0 \<le> fb_H fb \<Longrightarrow> 0 \<le> tiles_y T fb"
  by (simp add: tiles_y_eq pos_imp_zdiv_nonneg_iff)

lemma col_lt_tiles_x:
  assumes "0 < T" "wf_fb fb" "in_fb fb x y"
  shows "0 \<le> x div T" "x div T < tiles_x T fb"
proof -
  have x: "0 \<le> x" "x < fb_W fb" using assms(3) by (simp_all add: in_fb_def)
  show "0 \<le> x div T" using x assms(1) by (simp add: pos_imp_zdiv_nonneg_iff)
  have "fb_W fb \<le> tiles_x T fb * T" using assms x by (intro tiles_x_cover) simp_all
  then show "x div T < tiles_x T fb" using x assms(1) by (intro div_lt_bound) simp_all
qed

lemma row_lt_tiles_y:
  assumes "0 < T" "wf_fb fb" "in_fb fb x y"
  shows "0 \<le> y div T" "y div T < tiles_y T fb"
proof -
  have y: "0 \<le> y" "y < fb_H fb" using assms(3) by (simp_all add: in_fb_def)
  show "0 \<le> y div T" using y assms(1) by (simp add: pos_imp_zdiv_nonneg_iff)
  have "fb_H fb \<le> tiles_y T fb * T" using assms y by (intro tiles_y_cover) simp_all
  then show "y div T < tiles_y T fb" using y assms(1) by (intro div_lt_bound) simp_all
qed

text \<open>Decoding \<open>k = ty * n + tx\<close> with \<open>0 \<le> tx < n\<close>.\<close>

lemma decode_index:
  assumes "0 \<le> tx" "tx < (n::int)"
  shows "(ty * n + tx) mod n = tx" "(ty * n + tx) div n = ty"
  using assms by simp_all

lemma index_lt_total:
  assumes "0 \<le> tx" "tx < (n::int)" "0 \<le> ty" "ty < m"
  shows "0 \<le> ty * n + tx" "ty * n + tx < n * m"
proof -
  show "0 \<le> ty * n + tx" using assms by simp
  have "ty + 1 \<le> m" using assms by simp
  then have "(ty + 1) * n \<le> m * n" using assms by (intro mult_right_mono) simp_all
  then show "ty * n + tx < n * m" using assms by (simp add: algebra_simps)
qed

lemma tile_of_lt_total:
  assumes "0 < T" "wf_fb fb" "in_fb fb x y"
  shows "tile_of T fb x y < nat (total_tiles T fb)"
proof -
  have "(y div T) * tiles_x T fb + x div T < tiles_x T fb * tiles_y T fb"
    using col_lt_tiles_x [OF assms] row_lt_tiles_y [OF assms] by (intro index_lt_total)
  moreover have "0 \<le> (y div T) * tiles_x T fb + x div T"
    using col_lt_tiles_x [OF assms] row_lt_tiles_y [OF assms] by (intro index_lt_total(1))
  ultimately show ?thesis by (simp add: tile_of_def total_tiles_def)
qed

lemma tid_decode:
  assumes "0 < T" "wf_fb fb" "tid < nat (total_tiles T fb)"
  shows "0 < tiles_x T fb"
    and "cmod (int tid) (tiles_x T fb) = int tid mod tiles_x T fb"
    and "cdiv (int tid) (tiles_x T fb) = int tid div tiles_x T fb"
    and "0 \<le> int tid mod tiles_x T fb" "int tid mod tiles_x T fb < tiles_x T fb"
    and "0 \<le> int tid div tiles_x T fb" "int tid div tiles_x T fb < tiles_y T fb"
proof -
  have nn: "0 \<le> tiles_x T fb" "0 \<le> tiles_y T fb"
    using assms(1,2) by (simp_all add: tiles_x_nonneg tiles_y_nonneg wf_fb_def)
  have tot: "int tid < tiles_x T fb * tiles_y T fb" using assms(3) by (simp add: total_tiles_def)
  show pos: "0 < tiles_x T fb"
  proof (rule ccontr)
    assume "\<not> 0 < tiles_x T fb"
    then have "tiles_x T fb = 0" using nn by simp
    then show False using tot by simp
  qed
  show "cmod (int tid) (tiles_x T fb) = int tid mod tiles_x T fb" using pos by (simp add: cmod_nonneg)
  show "cdiv (int tid) (tiles_x T fb) = int tid div tiles_x T fb" using pos by (simp add: cdiv_nonneg)
  show "0 \<le> int tid mod tiles_x T fb" "int tid mod tiles_x T fb < tiles_x T fb" using pos by simp_all
  show "0 \<le> int tid div tiles_x T fb" using pos by (simp add: pos_imp_zdiv_nonneg_iff)
  show "int tid div tiles_x T fb < tiles_y T fb"
    using pos tot by (intro div_lt_bound) (simp_all add: mult.commute)
qed

lemma in_tile_iff:
  assumes "0 < T" "wf_fb fb" "tid < nat (total_tiles T fb)" "in_fb fb x y"
  shows "in_tile T fb tid x y \<longleftrightarrow> tid = tile_of T fb x y"
proof -
  note d = tid_decode [OF assms(1,2,3)]
  let ?n = "tiles_x T fb"
  let ?tx = "int tid mod ?n" and ?ty = "int tid div ?n"
  have xy: "x < fb_W fb" "y < fb_H fb" using assms(4) by (simp_all add: in_fb_def)
  have "in_tile T fb tid x y \<longleftrightarrow>
        (?tx * T \<le> x \<and> x < ?tx * T + T) \<and> (?ty * T \<le> y \<and> y < ?ty * T + T)"
    using xy by (auto simp: in_tile_def tile_x0_def tile_x1_def tile_y0_def tile_y1_def d(2,3))
  also have "\<dots> \<longleftrightarrow> x div T = ?tx \<and> y div T = ?ty"
    by (simp only: div_eq_iff_range [OF assms(1)])
  also have "\<dots> \<longleftrightarrow> int tid = (y div T) * ?n + x div T"
  proof
    assume h: "x div T = ?tx \<and> y div T = ?ty"
    have "int tid = ?ty * ?n + ?tx" by (rule div_mult_mod_eq [symmetric])
    then show "int tid = (y div T) * ?n + x div T" using h by simp
  next
    assume h: "int tid = (y div T) * ?n + x div T"
    show "x div T = ?tx \<and> y div T = ?ty"
      unfolding h using decode_index [OF col_lt_tiles_x [OF assms(1,2,4)], of "y div T"] by simp
  qed
  also have "\<dots> \<longleftrightarrow> tid = tile_of T fb x y"
  proof -
    have "0 \<le> (y div T) * ?n + x div T"
      using col_lt_tiles_x [OF assms(1,2,4)] row_lt_tiles_y [OF assms(1,2,4)]
      by (intro index_lt_total(1))
    then show ?thesis unfolding tile_of_def by linarith
  qed
  finally show ?thesis .
qed

lemma in_tile_in_fb:
  assumes "0 < T" "wf_fb fb" "tid < nat (total_tiles T fb)" "in_tile T fb tid x y"
  shows "in_fb fb x y"
proof -
  note d = tid_decode [OF assms(1,2,3)]
  have "0 \<le> tile_x0 T fb tid" "0 \<le> tile_y0 T fb tid"
    using d assms(1) by (simp_all add: tile_x0_def tile_y0_def)
  then show ?thesis
    using assms(4) by (auto simp: in_tile_def in_fb_def tile_x1_def tile_y1_def)
qed

lemma push_back_nth:
  "m < length bins \<Longrightarrow> 0 \<le> k \<Longrightarrow>
   push_back bins k i ! m = (if int m = k then bins ! m @ [i] else bins ! m)"
  by (auto simp: push_back_def nth_list_update)

lemma push_back_length [simp]: "length (push_back bins k i) = length bins"
  by (simp add: push_back_def)

lemma fold_push_back_length [simp]:
  "length (fold (\<lambda>k bins. push_back bins k i) ks bins) = length bins"
  by (induction ks arbitrary: bins) simp_all

lemma fold_push_back_nth:
  "distinct ks \<Longrightarrow> \<forall>k \<in> set ks. 0 \<le> k \<Longrightarrow> m < length bins \<Longrightarrow>
   fold (\<lambda>k bins. push_back bins k i) ks bins ! m =
     (if int m \<in> set ks then bins ! m @ [i] else bins ! m)"
proof (induction ks arbitrary: bins)
  case Nil then show ?case by simp
next
  case (Cons k ks)
  have "fold (\<lambda>k bins. push_back bins k i) (k # ks) bins ! m =
        fold (\<lambda>k bins. push_back bins k i) ks (push_back bins k i) ! m" by simp
  also have "\<dots> = (if int m \<in> set ks then push_back bins k i ! m @ [i] else push_back bins k i ! m)"
    using Cons.prems by (intro Cons.IH) simp_all
  also have "\<dots> = (if int m \<in> set (k # ks) then bins ! m @ [i] else bins ! m)"
    using Cons.prems by (auto simp: push_back_nth)
  finally show ?case .
qed

lemma concat_map_product:
  "concat (map (\<lambda>a. map (\<lambda>b. f a b) bs) as) = map (\<lambda>(a, b). f a b) (List.product as bs)"
  by (induction as) (simp_all add: comp_def)

lemma bin_particle_is_fold:
  "bin_particle T P fb i bins = fold (\<lambda>k bins. push_back bins k i) (tile_ids T P fb i) bins"
proof -
  have "fold (\<lambda>k bins. push_back bins k i) (concat (map (\<lambda>ty. map (\<lambda>tx. ty * tiles_x T fb + tx) txs) tys)) bins =
        fold (\<lambda>ty bins. fold (\<lambda>tx bins. push_back bins (ty * tiles_x T fb + tx) i) txs bins) tys bins"
    for txs tys
    by (induction tys arbitrary: bins) (simp_all add: fold_map comp_def)
  then show ?thesis
    by (simp add: bin_particle_def tile_ids_def Let_def concat_map_product [symmetric])
qed

lemma tile_ids_distinct: "distinct (tile_ids T P fb i)"
proof -
  let ?tys = "[max 0 (cdiv (p_cy P i - P_r P ! i) T)..min (tiles_y T fb - 1) (cdiv (p_cy P i + P_r P ! i) T)]"
  let ?txs = "[max 0 (cdiv (p_cx P i - P_r P ! i) T)..min (tiles_x T fb - 1) (cdiv (p_cx P i + P_r P ! i) T)]"
  have "inj_on (\<lambda>(ty, tx). ty * tiles_x T fb + tx) (set (List.product ?tys ?txs))"
  proof (rule inj_onI, clarify)
    fix ty tx ty' tx'
    assume a: "(ty, tx) \<in> set (List.product ?tys ?txs)" "(ty', tx') \<in> set (List.product ?tys ?txs)"
      and e: "ty * tiles_x T fb + tx = ty' * tiles_x T fb + tx'"
    have b: "0 \<le> tx" "tx < tiles_x T fb" "0 \<le> tx'" "tx' < tiles_x T fb" using a by auto
    have "(ty * tiles_x T fb + tx) mod tiles_x T fb = tx" "(ty * tiles_x T fb + tx) div tiles_x T fb = ty"
      using b by (simp_all add: decode_index)
    moreover have "(ty' * tiles_x T fb + tx') mod tiles_x T fb = tx'" "(ty' * tiles_x T fb + tx') div tiles_x T fb = ty'"
      using b by (simp_all add: decode_index)
    ultimately show "ty = ty' \<and> tx = tx'" using e by metis
  qed
  moreover have "distinct (List.product ?tys ?txs)" by (simp add: distinct_product)
  ultimately show ?thesis by (simp add: tile_ids_def distinct_map)
qed

lemma tile_ids_nonneg: "k \<in> set (tile_ids T P fb i) \<Longrightarrow> 0 \<le> k"
  by (auto simp: tile_ids_def)


lemma set_tile_ids:
  "k \<in> set (tile_ids T P fb i) \<longleftrightarrow>
   (\<exists>ty tx. k = ty * tiles_x T fb + tx \<and> in_tile_range T P fb i tx ty)"
proof -
  have "k \<in> set (tile_ids T P fb i) \<longleftrightarrow>
        (\<exists>p. p \<in> {ty. max 0 (cdiv (p_cy P i - P_r P ! i) T) \<le> ty \<and>
                         ty \<le> min (tiles_y T fb - 1) (cdiv (p_cy P i + P_r P ! i) T)} \<times>
                    {tx. max 0 (cdiv (p_cx P i - P_r P ! i) T) \<le> tx \<and>
                         tx \<le> min (tiles_x T fb - 1) (cdiv (p_cx P i + P_r P ! i) T)} \<and>
              k = fst p * tiles_x T fb + snd p)"
    unfolding tile_ids_def set_map image_iff Bex_def by (auto simp: split_beta)
  also have "\<dots> \<longleftrightarrow> (\<exists>ty tx. k = ty * tiles_x T fb + tx \<and> in_tile_range T P fb i tx ty)"
    unfolding in_tile_range_def by auto
  finally show ?thesis .
qed

lemma tile_ids_iff:
  "int tid \<in> set (tile_ids T P fb i) \<longleftrightarrow> binned T P fb tid i"
proof
  assume "int tid \<in> set (tile_ids T P fb i)"
  then obtain ty tx where k: "int tid = ty * tiles_x T fb + tx"
    and r: "in_tile_range T P fb i tx ty"
    unfolding set_tile_ids by blast
  have "0 \<le> tx" "tx < tiles_x T fb" using r by (auto simp: in_tile_range_def)
  then have "int tid mod tiles_x T fb = tx" "int tid div tiles_x T fb = ty"
    unfolding k by (simp_all add: decode_index)
  then show "binned T P fb tid i" using r by (simp add: binned_def)
next
  assume b: "binned T P fb tid i"
  let ?tx = "int tid mod tiles_x T fb" and ?ty = "int tid div tiles_x T fb"
  have "int tid = ?ty * tiles_x T fb + ?tx" by (rule div_mult_mod_eq [symmetric])
  moreover have "in_tile_range T P fb i ?tx ?ty" using b by (simp add: binned_def)
  ultimately have "\<exists>ty tx. int tid = ty * tiles_x T fb + tx \<and> in_tile_range T P fb i tx ty"
    by blast
  then show "int tid \<in> set (tile_ids T P fb i)" by (simp only: set_tile_ids)
qed

text \<open>Every \<open>push_back\<close> of the binning pass addresses an existing bin.\<close>

lemma tile_ids_in_range:
  assumes "k \<in> set (tile_ids T P fb i)"
  shows "0 \<le> k \<and> k < total_tiles T fb"
proof -
  obtain ty tx where k: "k = ty * tiles_x T fb + tx" and r: "in_tile_range T P fb i tx ty"
    using assms unfolding set_tile_ids by blast
  have b: "0 \<le> tx" "tx < tiles_x T fb" "0 \<le> ty" "ty < tiles_y T fb"
    using r by (auto simp: in_tile_range_def)
  show ?thesis unfolding k total_tiles_def using index_lt_total [OF b] by simp
qed

lemma bin_particle_length [simp]: "length (bin_particle T P fb i bins) = length bins"
  by (simp add: bin_particle_is_fold)

lemma bin_particle_nth:
  "tid < length bins \<Longrightarrow>
   bin_particle T P fb i bins ! tid = (if binned T P fb tid i then bins ! tid @ [i] else bins ! tid)"
  unfolding bin_particle_is_fold tile_ids_iff [symmetric]
  by (intro fold_push_back_nth) (simp_all add: tile_ids_distinct tile_ids_nonneg)

lemma fold_bin_particle:
  "length (fold (bin_particle T P fb) [0..<k] bins0) = length bins0 \<and>
   (\<forall>tid < length bins0.
      fold (bin_particle T P fb) [0..<k] bins0 ! tid = bins0 ! tid @ filter (binned T P fb tid) [0..<k])"
proof (induction k)
  case 0 then show ?case by simp
next
  case (Suc k)
  then show ?case by (simp add: bin_particle_nth)
qed

lemma binning_length: "length (binning T P fb) = nat (total_tiles T fb)"
  using fold_bin_particle [of T P fb "P_n P" "replicate (nat (total_tiles T fb)) []"]
  by (simp add: binning_def)

lemma binning_nth:
  "tid < nat (total_tiles T fb) \<Longrightarrow>
   binning T P fb ! tid = filter (binned T P fb tid) [0..<P_n P]"
  using fold_bin_particle [of T P fb "P_n P" "replicate (nat (total_tiles T fb)) []"]
  by (simp add: binning_def)

lemma in_disc_bounds:
  assumes "in_disc cx cy r x y"
  shows "cx - r \<le> x" "x \<le> cx + r" "cy - r \<le> y" "y \<le> cy + r"
proof -
  have r: "0 \<le> r" and s: "(x - cx) * (x - cx) + (y - cy) * (y - cy) \<le> r * r"
    using assms by (simp_all add: in_disc_def)
  have "0 \<le> (x - cx) * (x - cx)" "0 \<le> (y - cy) * (y - cy)" by simp_all
  then have "(x - cx) * (x - cx) \<le> r * r" "(y - cy) * (y - cy) \<le> r * r" using s by linarith+
  then have "\<bar>x - cx\<bar> \<le> r" "\<bar>y - cy\<bar> \<le> r" using r by (simp_all add: abs_le_iff_sq)
  then show "cx - r \<le> x" "x \<le> cx + r" "cy - r \<le> y" "y \<le> cy + r" by linarith+
qed

lemma cdiv_le_div:
  assumes "0 < T" "a \<le> x" "0 \<le> x"
  shows "cdiv a T \<le> x div T"
proof (cases "a < 0")
  case True
  then have "cdiv a T \<le> 0" using assms(1) by (rule cdiv_neg_le0)
  moreover have "0 \<le> x div T" using assms by (simp add: pos_imp_zdiv_nonneg_iff)
  ultimately show ?thesis by simp
next
  case False
  then show ?thesis using assms by (simp add: cdiv_nonneg zdiv_mono1)
qed

lemma div_le_cdiv:
  assumes "0 < T" "x \<le> a" "0 \<le> x"
  shows "x div T \<le> cdiv a T"
  using assms by (simp add: cdiv_nonneg zdiv_mono1)

lemma tile_of_decode:
  assumes "0 < T" "wf_fb fb" "in_fb fb x y"
  shows "int (tile_of T fb x y) mod tiles_x T fb = x div T"
    and "int (tile_of T fb x y) div tiles_x T fb = y div T"
proof -
  note c = col_lt_tiles_x [OF assms] and r = row_lt_tiles_y [OF assms]
  have "0 \<le> (y div T) * tiles_x T fb + x div T" using c r by (intro index_lt_total(1))
  then have e: "int (tile_of T fb x y) = (y div T) * tiles_x T fb + x div T"
    by (simp add: tile_of_def)
  show "int (tile_of T fb x y) mod tiles_x T fb = x div T"
    and "int (tile_of T fb x y) div tiles_x T fb = y div T"
    unfolding e using decode_index [OF c] by simp_all
qed

lemma square_binned:
  assumes "0 < T" "wf_fb fb" "in_fb fb x y"
    and b: "p_cx P i - P_r P ! i \<le> x" "x \<le> p_cx P i + P_r P ! i"
           "p_cy P i - P_r P ! i \<le> y" "y \<le> p_cy P i + P_r P ! i"
  shows "binned T P fb (tile_of T fb x y) i"
proof -
  note c = col_lt_tiles_x [OF assms(1,2,3)] and r = row_lt_tiles_y [OF assms(1,2,3)]
  have xy: "0 \<le> x" "0 \<le> y" using assms(3) by (simp_all add: in_fb_def)
  have "cdiv (p_cx P i - P_r P ! i) T \<le> x div T" using assms(1) b(1) xy(1) by (rule cdiv_le_div)
  moreover have "x div T \<le> cdiv (p_cx P i + P_r P ! i) T" using assms(1) b(2) xy(1) by (rule div_le_cdiv)
  moreover have "cdiv (p_cy P i - P_r P ! i) T \<le> y div T" using assms(1) b(3) xy(2) by (rule cdiv_le_div)
  moreover have "y div T \<le> cdiv (p_cy P i + P_r P ! i) T" using assms(1) b(4) xy(2) by (rule div_le_cdiv)
  ultimately have "in_tile_range T P fb i (x div T) (y div T)"
    using c r by (simp add: in_tile_range_def)
  then show ?thesis by (simp add: binned_def tile_of_decode [OF assms(1,2,3)])
qed

lemma covers_binned:
  assumes "0 < T" "wf_fb fb" "in_fb fb x y" "covers P i x y"
  shows "binned T P fb (tile_of T fb x y) i"
  using in_disc_bounds [OF assms(4) [unfolded covers_def]]
  by (intro square_binned [OF assms(1,2,3)])

lemma in_set_coloured:
  "(x, y, c) \<in> (\<lambda>(xx, yy). (xx, yy, c')) ` S \<longleftrightarrow> c = c' \<and> (x, y) \<in> S"
  by force

lemma set_tile_stores:
  "(x, y, c) \<in> set (tile_stores T P bins fb tid) \<longleftrightarrow>
   (\<exists>idx \<in> set (bins ! tid). c = P_color P ! idx \<and> in_tile T fb tid x y \<and> covers P idx x y)"
proof -
  have "(x, y, c) \<in> set (tile_stores T P bins fb tid) \<longleftrightarrow>
        (\<exists>idx \<in> set (bins ! tid). c = P_color P ! idx \<and>
           (x, y) \<in> set (circle_stores (p_cx P idx) (p_cy P idx) (P_r P ! idx)
                            (tile_x0 T fb tid) (tile_y0 T fb tid)
                            (tile_x1 T fb tid) (tile_y1 T fb tid)))"
    by (simp add: tile_stores_def in_set_coloured)
  then show ?thesis by (simp add: set_circle_stores in_tile_def covers_def)
qed

lemma set_render_stores:
  "(x, y, c) \<in> set (render_stores T P order fb) \<longleftrightarrow>
   (\<exists>tid \<in> set order. \<exists>idx \<in> set (binning T P fb ! tid).
      c = P_color P ! idx \<and> in_tile T fb tid x y \<and> covers P idx x y)"
  by (simp add: render_stores_def set_tile_stores)

lemma render_stores_in_fb:
  assumes "0 < T" "wf_fb fb" "\<forall>tid \<in> set order. tid < nat (total_tiles T fb)"
    and "(x, y, c) \<in> set (render_stores T P order fb)"
  shows "in_fb fb x y"
proof -
  obtain tid where "tid \<in> set order" "in_tile T fb tid x y"
    using assms(4) unfolding set_render_stores by blast
  then show ?thesis using assms(1,2,3) in_tile_in_fb by blast
qed

lemma render_is_apply:
  assumes "0 < T" "wf_fb fb" "\<forall>tid \<in> set order. tid < nat (total_tiles T fb)"
  shows "render_tiles_in_order T P order fb = Some (apply_stores (render_stores T P order fb) fb)"
proof -
  have "\<forall>(x, y, c) \<in> set (render_stores T P order fb). in_fb fb x y"
    using render_stores_in_fb [OF assms] by blast
  then show ?thesis unfolding render_is_stores using assms(2) by (intro run_stores_apply)
qed

lemma last_write_tile_stores:
  "last_write x y v (tile_stores T P bins fb tid) =
   foldl (\<lambda>v idx. if in_tile T fb tid x y \<and> covers P idx x y then P_color P ! idx else v) v (bins ! tid)"
proof -
  have "last_write x y v (map (\<lambda>(xx, yy). (xx, yy, P_color P ! idx))
           (circle_stores (p_cx P idx) (p_cy P idx) (P_r P ! idx)
              (tile_x0 T fb tid) (tile_y0 T fb tid) (tile_x1 T fb tid) (tile_y1 T fb tid))) =
        (if in_tile T fb tid x y \<and> covers P idx x y then P_color P ! idx else v)" for v idx
    unfolding last_write_same_colour set_circle_stores in_tile_def covers_def by simp
  then show ?thesis unfolding tile_stores_def last_write_concat by simp
qed

lemma foldl_skip:
  "(\<And>v a. a \<in> set xs \<Longrightarrow> f v a = v) \<Longrightarrow> foldl f v xs = v"
  by (induction xs arbitrary: v) simp_all

lemma foldl_filter_skip:
  "(\<And>v a. a \<in> set xs \<Longrightarrow> \<not> Q a \<Longrightarrow> f v a = v) \<Longrightarrow> foldl f v (filter Q xs) = foldl f v xs"
  by (induction xs arbitrary: v) simp_all

lemma paint_start_irrelevant:
  "\<exists>i < P_n P. covers P i x y \<Longrightarrow> paint P x y v = paint P x y w"
proof -
  have "\<exists>i \<in> set xs. covers P i x y \<Longrightarrow>
        foldl (\<lambda>v i. if covers P i x y then P_color P ! i else v) v xs =
        foldl (\<lambda>v i. if covers P i x y then P_color P ! i else v) w xs" for xs
  proof (induction xs arbitrary: v w)
    case Nil then show ?case by simp
  next
    case (Cons a xs)
    show ?case
    proof (cases "\<exists>i \<in> set xs. covers P i x y")
      case True
      then show ?thesis using Cons.IH by simp
    next
      case False
      then have "covers P a x y" using Cons.prems by simp
      then show ?thesis by simp
    qed
  qed
  from this [of "[0..<P_n P]"]
  show "\<exists>i < P_n P. covers P i x y \<Longrightarrow> paint P x y v = paint P x y w"
    unfolding paint_def by (simp add: Bex_def)
qed

lemma paint_uncovered: "\<forall>i < P_n P. \<not> covers P i x y \<Longrightarrow> paint P x y v = v"
  unfolding paint_def by (rule foldl_skip) simp

lemma paint_idem: "paint P x y (paint P x y v) = paint P x y v"
proof (cases "\<exists>i < P_n P. covers P i x y")
  case True
  then show ?thesis by (rule paint_start_irrelevant)
next
  case False
  then show ?thesis by (simp add: paint_uncovered)
qed

lemma last_write_own_tile:
  assumes "0 < T" "wf_fb fb" "in_fb fb x y"
  shows "last_write x y v (tile_stores T P (binning T P fb) fb (tile_of T fb x y)) = paint P x y v"
proof -
  let ?t = "tile_of T fb x y"
  have t: "?t < nat (total_tiles T fb)" by (rule tile_of_lt_total [OF assms])
  have it: "in_tile T fb ?t x y" using in_tile_iff [OF assms(1,2) t assms(3)] by simp
  have "last_write x y v (tile_stores T P (binning T P fb) fb ?t) =
        foldl (\<lambda>v i. if covers P i x y then P_color P ! i else v) v
          (filter (binned T P fb ?t) [0..<P_n P])"
    unfolding last_write_tile_stores binning_nth [OF t] using it by simp
  also have "\<dots> = foldl (\<lambda>v i. if covers P i x y then P_color P ! i else v) v [0..<P_n P]"
    using covers_binned [OF assms] by (intro foldl_filter_skip) auto
  finally show ?thesis by (simp add: paint_def)
qed

lemma last_write_other_tile:
  assumes "0 < T" "wf_fb fb" "in_fb fb x y" "tid < nat (total_tiles T fb)" "tid \<noteq> tile_of T fb x y"
  shows "last_write x y v (tile_stores T P bins fb tid) = v"
proof -
  have "\<not> in_tile T fb tid x y" using in_tile_iff [OF assms(1,2,4,3)] assms(5) by simp
  then show ?thesis unfolding last_write_tile_stores by (intro foldl_skip) simp
qed

lemma last_write_render_stores:
  assumes "0 < T" "wf_fb fb" "in_fb fb x y" "\<forall>tid \<in> set order. tid < nat (total_tiles T fb)"
  shows "last_write x y v (render_stores T P order fb) =
         (if tile_of T fb x y \<in> set order then paint P x y v else v)"
  using assms(4)
proof (induction order arbitrary: v)
  case Nil
  then show ?case by (simp add: render_stores_def)
next
  case (Cons tid order)
  have split: "last_write x y v (render_stores T P (tid # order) fb) =
        last_write x y (last_write x y v (tile_stores T P (binning T P fb) fb tid))
          (render_stores T P order fb)"
    by (simp add: render_stores_def last_write_append)
  have IH: "last_write x y w (render_stores T P order fb) =
            (if tile_of T fb x y \<in> set order then paint P x y w else w)" for w
    using Cons by simp
  show ?case
  proof (cases "tid = tile_of T fb x y")
    case True
    then show ?thesis
      unfolding split IH by (simp add: last_write_own_tile [OF assms(1,2,3)] paint_idem)
  next
    case False
    have "tid < nat (total_tiles T fb)" using Cons.prems by simp
    then have "last_write x y v (tile_stores T P (binning T P fb) fb tid) = v"
      using False by (intro last_write_other_tile [OF assms(1,2,3)])
    then show ?thesis unfolding split IH using False by simp
  qed
qed

text \<open>The pixel-level meaning of the tiled pass.\<close>

lemma render_tiles_pixel:
  assumes "0 < T" "wf_fb fb" "\<forall>tid \<in> set order. tid < nat (total_tiles T fb)"
  shows "\<exists>fb'. render_tiles_in_order T P order fb = Some fb' \<and> wf_fb fb' \<and>
           fb_W fb' = fb_W fb \<and> fb_H fb' = fb_H fb \<and>
           (\<forall>x y. in_fb fb x y \<longrightarrow>
              px fb' x y = (if tile_of T fb x y \<in> set order then paint P x y (px fb x y)
                            else px fb x y))"
proof (intro exI conjI allI impI)
  show "render_tiles_in_order T P order fb = Some (apply_stores (render_stores T P order fb) fb)"
    by (rule render_is_apply [OF assms])
  show "wf_fb (apply_stores (render_stores T P order fb) fb)" using assms(2) by simp
  show "fb_W (apply_stores (render_stores T P order fb) fb) = fb_W fb" by simp
  show "fb_H (apply_stores (render_stores T P order fb) fb) = fb_H fb" by simp
  fix x y assume inb: "in_fb fb x y"
  show "px (apply_stores (render_stores T P order fb) fb) x y =
        (if tile_of T fb x y \<in> set order then paint P x y (px fb x y) else px fb x y)"
    unfolding px_apply_stores [OF assms(2) inb]
    by (rule last_write_render_stores [OF assms(1,2) inb assms(3)])
qed

lemma render_pixel:
  assumes "0 < T" "wf_fb fb"
  shows "\<exists>fb'. render_circles_tiled T P fb = Some fb' \<and> wf_fb fb' \<and>
           fb_W fb' = fb_W fb \<and> fb_H fb' = fb_H fb \<and>
           (\<forall>x y. in_fb fb x y \<longrightarrow> px fb' x y = paint P x y (px fb x y))"
proof -
  let ?order = "[0..<nat (total_tiles T fb)]"
  have "\<forall>tid \<in> set ?order. tid < nat (total_tiles T fb)" by simp
  from render_tiles_pixel [OF assms this, of P]
  obtain fb' where r: "render_tiles_in_order T P ?order fb = Some fb'" "wf_fb fb'"
    "fb_W fb' = fb_W fb" "fb_H fb' = fb_H fb"
    and p: "\<And>x y. in_fb fb x y \<Longrightarrow>
         px fb' x y = (if tile_of T fb x y \<in> set ?order then paint P x y (px fb x y) else px fb x y)"
    by blast
  have "px fb' x y = paint P x y (px fb x y)" if "in_fb fb x y" for x y
    using p [OF that] tile_of_lt_total [OF assms that] by simp
  then show ?thesis using r by (simp add: render_circles_tiled_def)
qed

section \<open>Binning lemmas for the claims\<close>

lemma TILE_pos: "0 < TILE"
  by (simp add: TILE_def)

lemma wf_scene_fb: "wf_fb scene_fb"
  by (simp add: wf_fb_def scene_fb_def)

lemma total_tiles_scene: "total_tiles TILE scene_fb = 4"
  by (simp add: total_tiles_def tiles_x_def tiles_y_def TILE_def scene_fb_def cdiv_def)

lemma count_list_distinct_le1: "distinct xs \<Longrightarrow> count_list xs a \<le> 1"
  by (induction xs) (auto simp: count_list_0_iff)

lemma square_meets_iff:
  "square_meets P i x0 y0 x1 y1 \<longleftrightarrow>
   (\<exists>x y. x0 \<le> x \<and> x < x1 \<and> y0 \<le> y \<and> y < y1 \<and>
      p_cx P i - P_r P ! i \<le> x \<and> x \<le> p_cx P i + P_r P ! i \<and>
      p_cy P i - P_r P ! i \<le> y \<and> y \<le> p_cy P i + P_r P ! i)"
proof
  assume h: "square_meets P i x0 y0 x1 y1"
  show "\<exists>x y. x0 \<le> x \<and> x < x1 \<and> y0 \<le> y \<and> y < y1 \<and>
      p_cx P i - P_r P ! i \<le> x \<and> x \<le> p_cx P i + P_r P ! i \<and>
      p_cy P i - P_r P ! i \<le> y \<and> y \<le> p_cy P i + P_r P ! i"
    using h unfolding square_meets_def
    by (intro exI [where x = "max (p_cx P i - P_r P ! i) x0"]
              exI [where x = "max (p_cy P i - P_r P ! i) y0"]) simp
next
  assume "\<exists>x y. x0 \<le> x \<and> x < x1 \<and> y0 \<le> y \<and> y < y1 \<and>
      p_cx P i - P_r P ! i \<le> x \<and> x \<le> p_cx P i + P_r P ! i \<and>
      p_cy P i - P_r P ! i \<le> y \<and> y \<le> p_cy P i + P_r P ! i"
  then show "square_meets P i x0 y0 x1 y1" unfolding square_meets_def by auto
qed

lemma mem_binning:
  "tid < nat (total_tiles T fb) \<Longrightarrow>
   i \<in> set (binning T P fb ! tid) \<longleftrightarrow> i < P_n P \<and> binned T P fb tid i"
  by (auto simp: binning_nth)

lemma square_meets_tile_binned:
  assumes "0 < T" "wf_fb fb" "tid < nat (total_tiles T fb)"
    and "square_meets P i (tile_x0 T fb tid) (tile_y0 T fb tid) (tile_x1 T fb tid) (tile_y1 T fb tid)"
  shows "binned T P fb tid i"
proof -
  obtain x y where t: "in_tile T fb tid x y"
    and b: "p_cx P i - P_r P ! i \<le> x" "x \<le> p_cx P i + P_r P ! i"
           "p_cy P i - P_r P ! i \<le> y" "y \<le> p_cy P i + P_r P ! i"
    using assms(4) unfolding square_meets_iff in_tile_def by blast
  have inb: "in_fb fb x y" by (rule in_tile_in_fb [OF assms(1,2,3) t])
  have "tid = tile_of T fb x y" using in_tile_iff [OF assms(1,2,3) inb] t by simp
  then show ?thesis using square_binned [OF assms(1,2) inb b] by simp
qed

lemma range_meets:
  assumes "0 < (T::int)" "0 \<le> r" "0 \<le> c + r" "0 \<le> t"
    and lo: "max 0 (cdiv (c - r) T) \<le> t" and hi: "t \<le> cdiv (c + r) T"
  shows "max (c - r) (t * T) \<le> min (c + r) (t * T + T - 1)"
proof -
  have hi': "t \<le> (c + r) div T" using hi assms(1,3) by (simp add: cdiv_nonneg)
  have "t * T \<le> (c + r) div T * T" using hi' assms(1) by (intro mult_right_mono) simp_all
  moreover have "(c + r) div T * T + (c + r) mod T = c + r" by simp
  moreover have "0 \<le> (c + r) mod T" using assms(1) by simp
  ultimately have a: "t * T \<le> c + r" by linarith
  have b: "c - r < t * T + T"
  proof (cases "c - r < 0")
    case True
    have "0 \<le> t * T" using assms(1,4) by simp
    then show ?thesis using True assms(1) by linarith
  next
    case False
    then have "(c - r) div T \<le> t" using lo assms(1) by (simp add: cdiv_nonneg)
    then have "(c - r) div T * T \<le> t * T" using assms(1) by (intro mult_right_mono) simp_all
    moreover have "(c - r) div T * T + (c - r) mod T = c - r" by simp
    moreover have "(c - r) mod T < T" using assms(1) by simp
    ultimately show ?thesis by linarith
  qed
  show ?thesis using a b assms(1,2) by simp
qed

lemma binned_meets_cell:
  assumes "0 < T" "wf_fb fb" "tid < nat (total_tiles T fb)" "binned T P fb tid i"
    and "0 \<le> P_r P ! i" "0 \<le> p_cx P i + P_r P ! i" "0 \<le> p_cy P i + P_r P ! i"
  shows "square_meets P i (tile_x0 T fb tid) (tile_y0 T fb tid)
           (tile_x0 T fb tid + T) (tile_y0 T fb tid + T)"
proof -
  note d = tid_decode [OF assms(1,2,3)]
  let ?tx = "int tid mod tiles_x T fb" and ?ty = "int tid div tiles_x T fb"
  have r: "in_tile_range T P fb i ?tx ?ty" using assms(4) by (simp add: binned_def)
  have "max (p_cx P i - P_r P ! i) (?tx * T) \<le> min (p_cx P i + P_r P ! i) (?tx * T + T - 1)"
    using r d(4) by (intro range_meets assms) (simp_all add: in_tile_range_def)
  moreover have "max (p_cy P i - P_r P ! i) (?ty * T) \<le> min (p_cy P i + P_r P ! i) (?ty * T + T - 1)"
    using r d(6) by (intro range_meets assms) (simp_all add: in_tile_range_def)
  ultimately show ?thesis
    by (simp add: square_meets_def tile_x0_def tile_y0_def d(2,3))
qed

lemma cdiv_far_negative:
  assumes "0 < T" "a \<le> - T"
  shows "cdiv a T < 0"
proof -
  have "T \<le> \<bar>a\<bar>" using assms by simp
  then have "1 \<le> \<bar>a\<bar> div T" using assms(1) by (intro div_ge_bound) simp_all
  then show ?thesis using assms by (simp add: cdiv_def)
qed

lemma far_not_binned:
  assumes "0 < T" "wf_fb fb"
    and "p_cx P i + P_r P ! i \<le> - T \<or> p_cy P i + P_r P ! i \<le> - T \<or>
         tiles_x T fb * T \<le> p_cx P i - P_r P ! i \<or> tiles_y T fb * T \<le> p_cy P i - P_r P ! i"
  shows "\<not> in_tile_range T P fb i tx ty"
proof -
  have nn: "0 \<le> tiles_x T fb" "0 \<le> tiles_y T fb"
    using assms(1,2) by (simp_all add: tiles_x_nonneg tiles_y_nonneg wf_fb_def)
  have far: "n \<le> cdiv a T" if "n * T \<le> a" "0 \<le> n" for n a
  proof -
    have "0 \<le> n * T" using that(2) assms(1) by simp
    then have "0 \<le> a" using that(1) by simp
    then show ?thesis using that(1) assms(1) by (simp add: cdiv_nonneg div_ge_bound)
  qed
  consider "p_cx P i + P_r P ! i \<le> - T" | "p_cy P i + P_r P ! i \<le> - T"
    | "tiles_x T fb * T \<le> p_cx P i - P_r P ! i" | "tiles_y T fb * T \<le> p_cy P i - P_r P ! i"
    using assms(3) by blast
  then show ?thesis
  proof cases
    case 1
    then show ?thesis using cdiv_far_negative [OF assms(1) 1] by (simp add: in_tile_range_def)
  next
    case 2
    then show ?thesis using cdiv_far_negative [OF assms(1) 2] by (simp add: in_tile_range_def)
  next
    case 3
    then show ?thesis using far [OF 3 nn(1)] by (simp add: in_tile_range_def)
  next
    case 4
    then show ?thesis using far [OF 4 nn(2)] by (simp add: in_tile_range_def)
  qed
qed

lemma binning_offscreen: "binning TILE offscreen_P scene_fb ! 0 = [0]"
proof -
  have "binning TILE offscreen_P scene_fb ! 0 = filter (binned TILE offscreen_P scene_fb 0) [0..<P_n offscreen_P]"
    by (rule binning_nth) (simp add: total_tiles_scene)
  also have "\<dots> = [0]"
    by (simp add: offscreen_P_def binned_def in_tile_range_def tiles_x_def tiles_y_def TILE_def
        scene_fb_def cdiv_def p_cx_def p_cy_def lround_def)
  finally show ?thesis .
qed

lemma total_tiles_narrow: "total_tiles TILE narrow_fb = 4"
  by (simp add: total_tiles_def tiles_x_def tiles_y_def TILE_def narrow_fb_def cdiv_def)

lemma binning_beyond: "binning TILE beyond_P narrow_fb ! 1 = [0]"
proof -
  have "binning TILE beyond_P narrow_fb ! 1 = filter (binned TILE beyond_P narrow_fb 1) [0..<P_n beyond_P]"
    by (rule binning_nth) (simp add: total_tiles_narrow)
  also have "\<dots> = [0]"
    by (simp add: beyond_P_def binned_def in_tile_range_def tiles_x_def tiles_y_def TILE_def
        narrow_fb_def cdiv_def p_cx_def p_cy_def lround_def)
  finally show ?thesis .
qed

lemma narrow_tile1:
  "tile_x0 TILE narrow_fb 1 = 32" "tile_y0 TILE narrow_fb 1 = 0"
  "tile_x1 TILE narrow_fb 1 = 40" "tile_y1 TILE narrow_fb 1 = 32"
  by (simp_all add: tile_x0_def tile_y0_def tile_x1_def tile_y1_def tiles_x_def TILE_def
      narrow_fb_def cdiv_def cmod_def)

lemma scene_tile0:
  "tile_x0 TILE scene_fb 0 = 0" "tile_y0 TILE scene_fb 0 = 0"
  "tile_x1 TILE scene_fb 0 = 32" "tile_y1 TILE scene_fb 0 = 32"
  by (simp_all add: tile_x0_def tile_y0_def tile_x1_def tile_y1_def tiles_x_def TILE_def
      scene_fb_def cdiv_def cmod_def)

lemma scene_tile1:
  "tile_x0 TILE scene_fb 1 = 32" "tile_y0 TILE scene_fb 1 = 0"
  "tile_x1 TILE scene_fb 1 = 64" "tile_y1 TILE scene_fb 1 = 32"
  by (simp_all add: tile_x0_def tile_y0_def tile_x1_def tile_y1_def tiles_x_def TILE_def
      scene_fb_def cdiv_def cmod_def)

section \<open>Rendering lemmas for the claims\<close>

lemma span_real_sqrt:
  assumes "max (cy - r) y0 \<le> yy" "yy \<le> min (cy + r) (y1 - 1)"
  shows "span_lo cx cy r x0 yy = max (cx - \<lfloor>sqrt (real_of_int (r * r - (yy - cy) * (yy - cy)))\<rfloor>) x0"
    and "span_hi cx cy r x1 yy = min (cx + \<lfloor>sqrt (real_of_int (r * r - (yy - cy) * (yy - cy)))\<rfloor>) (x1 - 1)"
proof -
  have "\<bar>yy - cy\<bar> \<le> r" using assms by (auto simp: abs_le_iff)
  then have v: "0 \<le> r * r - (yy - cy) * (yy - cy)" by (simp add: abs_le_iff_sq)
  show "span_lo cx cy r x0 yy = max (cx - \<lfloor>sqrt (real_of_int (r * r - (yy - cy) * (yy - cy)))\<rfloor>) x0"
    and "span_hi cx cy r x1 yy = min (cx + \<lfloor>sqrt (real_of_int (r * r - (yy - cy) * (yy - cy)))\<rfloor>) (x1 - 1)"
    unfolding span_lo_def span_hi_def Let_def floor_sqrt_is_floor_of_sqrt [OF v] by simp_all
qed

lemma draw_circle_result:
  assumes wf: "wf_fb fb"
    and inside: "\<And>x y. x0 \<le> x \<Longrightarrow> x < x1 \<Longrightarrow> y0 \<le> y \<Longrightarrow> y < y1 \<Longrightarrow> in_fb fb x y"
  shows "draw_circle_clipped_to_tile fb cx cy r c x0 y0 x1 y1 =
         Some (apply_stores (map (\<lambda>(xx, yy). (xx, yy, c)) (circle_stores cx cy r x0 y0 x1 y1)) fb)"
proof -
  have "\<forall>(x, y, c') \<in> set (map (\<lambda>(xx, yy). (xx, yy, c)) (circle_stores cx cy r x0 y0 x1 y1)). in_fb fb x y"
    using inside by (auto simp: set_circle_stores)
  then show ?thesis unfolding draw_circle_is_stores using wf by (intro run_stores_apply)
qed

lemma render_omp_pixel:
  assumes "wf_fb fb"
  shows "\<exists>fb'. render_circles_tiled_omp P fb = Some fb' \<and> wf_fb fb' \<and>
           fb_W fb' = fb_W fb \<and> fb_H fb' = fb_H fb \<and>
           (\<forall>x y. in_fb fb x y \<longrightarrow> px fb' x y = paint P x y (px fb x y))"
  unfolding render_circles_tiled_omp_def by (rule render_pixel [OF TILE_pos assms])

lemma all_tiles_lt: "\<forall>tid \<in> set [0..<nat (total_tiles T fb)]. tid < nat (total_tiles T fb)"
  by simp

lemma tile_rect_in_fb:
  assumes "0 < T" "wf_fb fb" "tid < nat (total_tiles T fb)"
  shows "0 \<le> tile_x0 T fb tid" "tile_x1 T fb tid \<le> fb_W fb"
    "0 \<le> tile_y0 T fb tid" "tile_y1 T fb tid \<le> fb_H fb"
proof -
  note d = tid_decode [OF assms]
  show "0 \<le> tile_x0 T fb tid" "0 \<le> tile_y0 T fb tid"
    using d assms(1) by (simp_all add: tile_x0_def tile_y0_def)
  show "tile_x1 T fb tid \<le> fb_W fb" "tile_y1 T fb tid \<le> fb_H fb"
    by (simp_all add: tile_x1_def tile_y1_def)
qed

lemma set_tile_stores_spans:
  "(x, y, c) \<in> set (tile_stores T P bins fb tid) \<longleftrightarrow>
   (\<exists>idx \<in> set (bins ! tid). c = P_color P ! idx \<and>
      (x, y) \<in> set (circle_stores (p_cx P idx) (p_cy P idx) (P_r P ! idx)
                       (tile_x0 T fb tid) (tile_y0 T fb tid)
                       (tile_x1 T fb tid) (tile_y1 T fb tid)))"
  by (simp add: tile_stores_def in_set_coloured)

lemma wf_fb_I: "1 \<le> fb_W fb \<Longrightarrow> 1 \<le> fb_H fb \<Longrightarrow> length (fb_pix fb) = nat (fb_W fb * fb_H fb) \<Longrightarrow> wf_fb fb"
  by (simp add: wf_fb_def)

lemma last_write_untouched:
  "\<forall>c. (x, y, c) \<notin> set ss \<Longrightarrow> last_write x y v ss = v"
  unfolding last_write_def by (rule foldl_skip) auto

lemma px_scene_fb: "in_fb scene_fb x y \<Longrightarrow> px scene_fb x y = 0"
proof -
  assume i: "in_fb scene_fb x y"
  have "nat (y * fb_W scene_fb + x) < length (fb_pix scene_fb)"
    by (rule flat_index_lt_length [OF wf_scene_fb i])
  then show ?thesis by (simp add: px_def scene_fb_def)
qed

lemma upt_split_at: "j < n \<Longrightarrow> [0..<n] = [0..<j] @ [j] @ [Suc j..<n]"
proof -
  assume j: "j < n"
  have "[0..<j + (n - j)] = [0..<j] @ [j..<j + (n - j)]" by (intro upt_add_eq_append) simp
  then have "[0..<n] = [0..<j] @ [j..<n]" using j by simp
  then show ?thesis using j by (simp add: upt_conv_Cons)
qed

lemma paint_last:
  assumes "j < P_n P" "covers P j x y" "\<forall>k. j < k \<and> k < P_n P \<longrightarrow> \<not> covers P k x y"
  shows "paint P x y v = P_color P ! j"
proof -
  let ?g = "\<lambda>v i. if covers P i x y then P_color P ! i else v"
  have "[0..<P_n P] = [0..<j] @ [j] @ [Suc j..<P_n P]"
    by (rule upt_split_at [OF assms(1)])
  then have "paint P x y v = foldl ?g (?g (foldl ?g v [0..<j]) j) [Suc j..<P_n P]"
    by (simp add: paint_def)
  also have "\<dots> = ?g (foldl ?g v [0..<j]) j"
    using assms(3) by (intro foldl_skip) simp
  also have "\<dots> = P_color P ! j" using assms(2) by simp
  finally show ?thesis .
qed

lemma set_render_stores_spans:
  "(x, y, c) \<in> set (render_stores T P order fb) \<longleftrightarrow>
   (\<exists>tid \<in> set order. \<exists>idx \<in> set (binning T P fb ! tid). c = P_color P ! idx \<and>
      (x, y) \<in> set (circle_stores (p_cx P idx) (p_cy P idx) (P_r P ! idx)
                       (tile_x0 T fb tid) (tile_y0 T fb tid)
                       (tile_x1 T fb tid) (tile_y1 T fb tid)))"
  by (simp add: render_stores_def set_tile_stores_spans)

lemma paint_scenario1:
  "paint scenario1_P x y v = (if (x - 32)\<^sup>2 + (y - 32)\<^sup>2 \<le> 1600 then 0xFFFFFFFF else v)"
  by (simp add: paint_def scenario1_P_def covers_def in_disc_def p_cx_def p_cy_def lround_def
      power2_eq_square)

lemma in_scene_fb: "in_fb scene_fb x y \<longleftrightarrow> 0 \<le> x \<and> x < 64 \<and> 0 \<le> y \<and> y < 64"
  by (simp add: in_fb_def scene_fb_def)

lemma scenario1_pixels:
  "\<exists>fb'. render_circles_tiled_omp scenario1_P scene_fb = Some fb' \<and>
     (\<forall>x y. in_fb scene_fb x y \<longrightarrow>
        px fb' x y = (if (x - 32)\<^sup>2 + (y - 32)\<^sup>2 \<le> 1600 then 0xFFFFFFFF else 0))"
proof -
  obtain fb' where r: "render_circles_tiled_omp scenario1_P scene_fb = Some fb'"
    and p: "\<forall>x y. in_fb scene_fb x y \<longrightarrow> px fb' x y = paint scenario1_P x y (px scene_fb x y)"
    using render_omp_pixel [OF wf_scene_fb, of scenario1_P] by blast
  have "px fb' x y = (if (x - 32)\<^sup>2 + (y - 32)\<^sup>2 \<le> 1600 then 0xFFFFFFFF else 0)"
    if "in_fb scene_fb x y" for x y
    using p that by (simp add: paint_scenario1 px_scene_fb)
  then show ?thesis using r by blast
qed

lemma render_order_eq:
  assumes "0 < T" "wf_fb fb" "set order = {0..<nat (total_tiles T fb)}"
  shows "render_tiles_in_order T P order fb = render_circles_tiled T P fb"
proof -
  have lt: "\<forall>tid \<in> set order. tid < nat (total_tiles T fb)" using assms(3) by simp
  obtain fb1 where r1: "render_tiles_in_order T P order fb = Some fb1" "wf_fb fb1"
    "fb_W fb1 = fb_W fb" "fb_H fb1 = fb_H fb"
    and p1: "\<forall>x y. in_fb fb x y \<longrightarrow>
         px fb1 x y = (if tile_of T fb x y \<in> set order then paint P x y (px fb x y) else px fb x y)"
    using render_tiles_pixel [OF assms(1,2) lt, of P] by blast
  obtain fb2 where r2: "render_circles_tiled T P fb = Some fb2" "wf_fb fb2"
    "fb_W fb2 = fb_W fb" "fb_H fb2 = fb_H fb"
    and p2: "\<forall>x y. in_fb fb x y \<longrightarrow> px fb2 x y = paint P x y (px fb x y)"
    using render_pixel [OF assms(1,2), of P] by blast
  have "fb1 = fb2"
  proof (rule fb_ext [OF r2(2) r1(2)])
    show "fb_W fb1 = fb_W fb2" "fb_H fb1 = fb_H fb2" using r1 r2 by simp_all
    fix x y assume "in_fb fb2 x y"
    then have i: "in_fb fb x y" using r2 by (simp add: in_fb_def)
    have "tile_of T fb x y \<in> set order"
      using tile_of_lt_total [OF assms(1,2) i] assms(3) by simp
    then show "px fb1 x y = px fb2 x y" using p1 p2 i by simp
  qed
  then show ?thesis using r1 r2 by simp
qed











lemma nth_remove:
  "j < length xs - 1 \<Longrightarrow> (take k xs @ drop (Suc k) xs) ! j = xs ! (if j < k then j else Suc j)"
  by (auto simp: nth_append min_def)

lemma remove_particle_fields:
  assumes "wf_particles P" "k < P_n P" "j < P_n P - 1"
  shows "p_cx (remove_particle k P) j = p_cx P (if j < k then j else Suc j)"
    and "p_cy (remove_particle k P) j = p_cy P (if j < k then j else Suc j)"
    and "P_r (remove_particle k P) ! j = P_r P ! (if j < k then j else Suc j)"
    and "P_color (remove_particle k P) ! j = P_color P ! (if j < k then j else Suc j)"
  using assms unfolding p_cx_def p_cy_def remove_particle_def wf_particles_def
  by (simp_all add: nth_remove)

lemma foldl_cong_set:
  "(\<And>v a. a \<in> set xs \<Longrightarrow> f v a = g v a) \<Longrightarrow> foldl f v xs = foldl g v xs"
  by (induction xs arbitrary: v) simp_all

lemma upt_without:
  assumes "k < n"
  shows "map (\<lambda>j. if j < k then j else Suc j) [0..<n - 1] = [0..<k] @ [Suc k..<n]"
proof -
  have "k \<le> n - 1" using assms by simp
  then obtain m where m: "n - 1 = k + m" by (auto simp: le_iff_add)
  have "[0..<k + m] = [0..<k] @ [k..<k + m]" by (rule upt_add_eq_append) simp
  then have split: "[0..<n - 1] = [0..<k] @ [k..<n - 1]" unfolding m [symmetric] .
  have a: "map (\<lambda>j. if j < k then j else Suc j) [0..<k] = [0..<k]"
    by (rule map_idI) simp
  have b: "map (\<lambda>j. if j < k then j else Suc j) [k..<n - 1] = map Suc [k..<n - 1]"
    by (rule map_cong) simp_all
  have c: "map Suc [k..<n - 1] = [Suc k..<n]" using assms by (simp add: map_Suc_upt)
  have "map (\<lambda>j. if j < k then j else Suc j) [0..<n - 1] =
        map (\<lambda>j. if j < k then j else Suc j) [0..<k] @ map (\<lambda>j. if j < k then j else Suc j) [k..<n - 1]"
    by (simp only: split map_append)
  then show ?thesis by (simp only: a b c)
qed

lemma paint_remove_particle:
  assumes "wf_particles P" "k < P_n P" "\<not> covers P k x y"
  shows "paint (remove_particle k P) x y v = paint P x y v"
proof -
  let ?g = "\<lambda>v i. if covers P i x y then P_color P ! i else v"
  let ?s = "\<lambda>j. if j < k then j else Suc j"
  let ?P' = "remove_particle k P"
  have n': "P_n ?P' = P_n P - 1" by (simp add: remove_particle_def)
  have "paint ?P' x y v = foldl (\<lambda>v j. ?g v (?s j)) v [0..<P_n P - 1]"
    unfolding paint_def n'
  proof (rule foldl_cong_set)
    fix v j assume "j \<in> set [0..<P_n P - 1]"
    then have j: "j < P_n P - 1" by simp
    show "(if covers ?P' j x y then P_color ?P' ! j else v) = ?g v (?s j)"
      unfolding covers_def remove_particle_fields [OF assms(1,2) j] by simp
  qed
  also have "\<dots> = foldl ?g v (map ?s [0..<P_n P - 1])" by (simp add: foldl_map)
  also have "\<dots> = foldl ?g v ([0..<k] @ [Suc k..<P_n P])" by (simp only: upt_without [OF assms(2)])
  also have "\<dots> = foldl ?g v ([0..<k] @ [k] @ [Suc k..<P_n P])" using assms(3) by simp
  also have "[0..<k] @ [k] @ [Suc k..<P_n P] = [0..<P_n P]"
    by (rule upt_split_at [OF assms(2), symmetric])
  finally show ?thesis by (simp add: paint_def)
qed

lemma covers_meets_fb:
  assumes "in_fb fb x y" "covers P k x y"
  shows "square_meets P k 0 0 (fb_W fb) (fb_H fb)"
  unfolding square_meets_iff
  using assms in_disc_bounds [of "p_cx P k" "p_cy P k" "P_r P ! k" x y]
  by (intro exI [where x = x] exI [where x = y]) (simp add: in_fb_def covers_def)

section \<open>The claims\<close>

text \<open>
  C1 (as amended). Binning works on the indices of the uniform tile grid and is
  conservative. For a tile edge \<open>T > 0\<close>, a well-formed framebuffer and particle store, a
  tile \<open>tid\<close> and a particle \<open>i\<close> with rounded centre \<open>(cx, cy)\<close> and radius \<open>r\<close>: every
  tile whose rectangle intersects the bounding square \<open>[cx - r, cx + r] \<times> [cy - r, cy + r]\<close>
  has \<open>i\<close> in its bin; if \<open>r \<ge> 0\<close>, \<open>cx + r \<ge> 0\<close> and \<open>cy + r \<ge> 0\<close>, a tile that has \<open>i\<close>
  in its bin has its full grid cell \<open>[x0, x0 + T) \<times> [y0, y0 + T)\<close> intersecting the bounding
  square; and a particle with \<open>cx + r \<le> -T\<close>, \<open>cy + r \<le> -T\<close>, \<open>cx - r \<ge> tiles_x * T\<close> or
  \<open>cy - r \<ge> tiles_y * T\<close> is in no bin.
\<close>

theorem binning_tile_range:
  assumes "0 < T" "wf_fb fb" "tid < nat (total_tiles T fb)" "i < P_n P" "wf_particles P"
  shows "(square_meets P i (tile_x0 T fb tid) (tile_y0 T fb tid) (tile_x1 T fb tid) (tile_y1 T fb tid)
            \<longrightarrow> i \<in> set (binning T P fb ! tid)) \<and>
         (i \<in> set (binning T P fb ! tid) \<and> 0 \<le> P_r P ! i \<and>
          0 \<le> p_cx P i + P_r P ! i \<and> 0 \<le> p_cy P i + P_r P ! i
            \<longrightarrow> square_meets P i (tile_x0 T fb tid) (tile_y0 T fb tid)
                   (tile_x0 T fb tid + T) (tile_y0 T fb tid + T)) \<and>
         (p_cx P i + P_r P ! i \<le> - T \<or> p_cy P i + P_r P ! i \<le> - T \<or>
          tiles_x T fb * T \<le> p_cx P i - P_r P ! i \<or> tiles_y T fb * T \<le> p_cy P i - P_r P ! i
            \<longrightarrow> i \<notin> set (binning T P fb ! tid))"
proof (intro conjI impI)
  assume "square_meets P i (tile_x0 T fb tid) (tile_y0 T fb tid) (tile_x1 T fb tid) (tile_y1 T fb tid)"
  then have "binned T P fb tid i" by (rule square_meets_tile_binned [OF assms(1,2,3)])
  then show "i \<in> set (binning T P fb ! tid)" using assms(4) by (simp add: mem_binning [OF assms(3)])
next
  assume h: "i \<in> set (binning T P fb ! tid) \<and> 0 \<le> P_r P ! i \<and>
          0 \<le> p_cx P i + P_r P ! i \<and> 0 \<le> p_cy P i + P_r P ! i"
  then have "binned T P fb tid i" by (simp add: mem_binning [OF assms(3)])
  then show "square_meets P i (tile_x0 T fb tid) (tile_y0 T fb tid)
                   (tile_x0 T fb tid + T) (tile_y0 T fb tid + T)"
    using h by (intro binned_meets_cell [OF assms(1,2,3)]) simp_all
next
  assume "p_cx P i + P_r P ! i \<le> - T \<or> p_cy P i + P_r P ! i \<le> - T \<or>
          tiles_x T fb * T \<le> p_cx P i - P_r P ! i \<or> tiles_y T fb * T \<le> p_cy P i - P_r P ! i"
  then have "\<not> binned T P fb tid i" unfolding binned_def by (rule far_not_binned [OF assms(1,2)])
  then show "i \<notin> set (binning T P fb ! tid)" by (simp add: mem_binning [OF assms(3)])
qed

text \<open>
  The claim as stated fails. On the 40 by 40 framebuffer the particle at \<open>(50, 10)\<close> with
  radius 5 has the bounding square \<open>[45, 55] \<times> [5, 15]\<close>, which meets neither the
  framebuffer nor the rectangle \<open>[32, 40) \<times> [0, 32)\<close> of tile 1, and the binning pass puts
  it into the bin of tile 1: its columns \<open>45 / 32 .. min 1 (55 / 32)\<close> are those of the
  unclipped grid cell. On the 64 by 64 framebuffer the particle at \<open>(-10, 10)\<close> with radius
  5, whose bounding square \<open>[-15, -5] \<times> [5, 15]\<close> lies left of the framebuffer, is put into
  the bin of tile 0, because \<open>(cx + r) / TILE = -5 / 32\<close> is \<open>0\<close> in C++.
\<close>

theorem binning_exactness_counterexample:
  "(0 \<in> set (binning TILE beyond_P narrow_fb ! 1) \<and>
    \<not> square_meets beyond_P 0 (tile_x0 TILE narrow_fb 1) (tile_y0 TILE narrow_fb 1)
         (tile_x1 TILE narrow_fb 1) (tile_y1 TILE narrow_fb 1) \<and>
    \<not> square_meets beyond_P 0 0 0 (fb_W narrow_fb) (fb_H narrow_fb)) \<and>
   (0 \<in> set (binning TILE offscreen_P scene_fb ! 0) \<and>
    \<not> square_meets offscreen_P 0 (tile_x0 TILE scene_fb 0) (tile_y0 TILE scene_fb 0)
         (tile_x1 TILE scene_fb 0) (tile_y1 TILE scene_fb 0) \<and>
    \<not> square_meets offscreen_P 0 0 0 (fb_W scene_fb) (fb_H scene_fb))"
proof -
  have vals: "p_cx offscreen_P 0 = -10" "p_cy offscreen_P 0 = 10" "P_r offscreen_P ! 0 = 5"
    by (simp_all add: offscreen_P_def p_cx_def p_cy_def lround_def)
  have bvals: "p_cx beyond_P 0 = 50" "p_cy beyond_P 0 = 10" "P_r beyond_P ! 0 = 5"
    by (simp_all add: beyond_P_def p_cx_def p_cy_def lround_def)
  have dims: "fb_W scene_fb = 64" "fb_H scene_fb = 64" "fb_W narrow_fb = 40" "fb_H narrow_fb = 40"
    by (simp_all add: scene_fb_def narrow_fb_def)
  have a: "0 \<in> set (binning TILE beyond_P narrow_fb ! 1)" by (simp only: binning_beyond) simp
  have b: "\<not> square_meets beyond_P 0 (tile_x0 TILE narrow_fb 1) (tile_y0 TILE narrow_fb 1)
         (tile_x1 TILE narrow_fb 1) (tile_y1 TILE narrow_fb 1)"
    unfolding square_meets_def bvals narrow_tile1 by simp
  have c: "\<not> square_meets beyond_P 0 0 0 (fb_W narrow_fb) (fb_H narrow_fb)"
    unfolding square_meets_def bvals dims by simp
  have d: "0 \<in> set (binning TILE offscreen_P scene_fb ! 0)" by (simp only: binning_offscreen) simp
  have e: "\<not> square_meets offscreen_P 0 (tile_x0 TILE scene_fb 0) (tile_y0 TILE scene_fb 0)
         (tile_x1 TILE scene_fb 0) (tile_y1 TILE scene_fb 0)"
    unfolding square_meets_def vals scene_tile0 by simp
  have f: "\<not> square_meets offscreen_P 0 0 0 (fb_W scene_fb) (fb_H scene_fb)"
    unfolding square_meets_def vals dims by simp
  show ?thesis using a b c d e f by simp
qed

theorem binning_tile_range_witness:
  "0 \<in> set (binning TILE straddle_P scene_fb ! 1) \<and>
   square_meets straddle_P 0 (tile_x0 TILE scene_fb 1) (tile_y0 TILE scene_fb 1)
     (tile_x0 TILE scene_fb 1 + TILE) (tile_y0 TILE scene_fb 1 + TILE) \<and>
   0 \<notin> set (binning TILE far_P scene_fb ! 1)"
proof -
  have t1: "(1::nat) < nat (total_tiles TILE scene_fb)"
    by (simp add: total_tiles_scene)
  have i: "0 < P_n straddle_P" "0 < P_n far_P" by (simp_all add: straddle_P_def far_P_def)
  have w: "wf_particles straddle_P" "wf_particles far_P"
    by (simp_all add: wf_particles_def straddle_P_def far_P_def)
  have vals: "p_cx straddle_P 0 = 31" "p_cy straddle_P 0 = 16" "P_r straddle_P ! 0 = 10"
    by (simp_all add: straddle_P_def p_cx_def p_cy_def lround_def)
  have fvals: "p_cx far_P 0 = 200" "p_cy far_P 0 = 10" "P_r far_P ! 0 = 5"
    by (simp_all add: far_P_def p_cx_def p_cy_def lround_def)
  have m: "square_meets straddle_P 0 (tile_x0 TILE scene_fb 1) (tile_y0 TILE scene_fb 1)
     (tile_x1 TILE scene_fb 1) (tile_y1 TILE scene_fb 1)"
    unfolding square_meets_def vals scene_tile1 by simp
  have nn: "0 \<le> P_r straddle_P ! 0" "0 \<le> p_cx straddle_P 0 + P_r straddle_P ! 0"
    "0 \<le> p_cy straddle_P 0 + P_r straddle_P ! 0"
    by (simp_all add: vals)
  have far: "tiles_x TILE scene_fb * TILE \<le> p_cx far_P 0 - P_r far_P ! 0"
    by (simp add: fvals TILE_def tiles_x_def scene_fb_def cdiv_def)
  have a: "0 \<in> set (binning TILE straddle_P scene_fb ! 1)"
    using binning_tile_range [OF TILE_pos wf_scene_fb t1 i(1) w(1)] m by blast
  have b: "square_meets straddle_P 0 (tile_x0 TILE scene_fb 1) (tile_y0 TILE scene_fb 1)
     (tile_x0 TILE scene_fb 1 + TILE) (tile_y0 TILE scene_fb 1 + TILE)"
    using binning_tile_range [OF TILE_pos wf_scene_fb t1 i(1) w(1)] a nn by blast
  have c: "0 \<notin> set (binning TILE far_P scene_fb ! 1)"
    using binning_tile_range [OF TILE_pos wf_scene_fb t1 i(2) w(2)] far by blast
  show ?thesis using a b c by simp
qed

text \<open>
  C2. Write safety. For a framebuffer with \<open>W \<ge> 1\<close>, \<open>H \<ge> 1\<close> and \<open>W * H\<close> pixels and every
  particle store, the pass is the run of the stores of its tiles; every store has
  coordinates \<open>0 \<le> x < W\<close> and \<open>0 \<le> y < H\<close> and a flat index \<open>y * W + x\<close> below
  \<open>W * H\<close>; every tile rectangle lies inside the framebuffer and every store of a tile
  lies inside the tile's rectangle; and the pass is defined (no store leaves the pixel
  vector), returning a framebuffer of the same size.
\<close>

theorem write_safety:
  assumes "1 \<le> fb_W fb" "1 \<le> fb_H fb" "length (fb_pix fb) = nat (fb_W fb * fb_H fb)"
    and "wf_particles P"
  shows "render_circles_tiled_omp P fb =
           run_stores (render_stores TILE P [0..<nat (total_tiles TILE fb)] fb) fb \<and>
         (\<forall>(x, y, c) \<in> set (render_stores TILE P [0..<nat (total_tiles TILE fb)] fb).
            0 \<le> x \<and> x < fb_W fb \<and> 0 \<le> y \<and> y < fb_H fb \<and>
            0 \<le> y * fb_W fb + x \<and> y * fb_W fb + x < fb_W fb * fb_H fb) \<and>
         (\<forall>tid < nat (total_tiles TILE fb).
            0 \<le> tile_x0 TILE fb tid \<and> tile_x1 TILE fb tid \<le> fb_W fb \<and>
            0 \<le> tile_y0 TILE fb tid \<and> tile_y1 TILE fb tid \<le> fb_H fb \<and>
            (\<forall>(x, y, c) \<in> set (tile_stores TILE P (binning TILE P fb) fb tid).
               tile_x0 TILE fb tid \<le> x \<and> x < tile_x1 TILE fb tid \<and>
               tile_y0 TILE fb tid \<le> y \<and> y < tile_y1 TILE fb tid)) \<and>
         (\<exists>fb'. render_circles_tiled_omp P fb = Some fb' \<and>
                fb_W fb' = fb_W fb \<and> fb_H fb' = fb_H fb \<and>
                length (fb_pix fb') = length (fb_pix fb))"
proof -
  have wf: "wf_fb fb" using assms(1,2,3) by (rule wf_fb_I)
  let ?order = "[0..<nat (total_tiles TILE fb)]"
  have link: "render_circles_tiled_omp P fb = run_stores (render_stores TILE P ?order fb) fb"
    by (simp add: render_circles_tiled_omp_def render_circles_tiled_def render_is_stores)
  have inb: "0 \<le> x \<and> x < fb_W fb \<and> 0 \<le> y \<and> y < fb_H fb \<and>
             0 \<le> y * fb_W fb + x \<and> y * fb_W fb + x < fb_W fb * fb_H fb"
    if "(x, y, c) \<in> set (render_stores TILE P ?order fb)" for x y c
  proof -
    have i: "in_fb fb x y" using render_stores_in_fb [OF TILE_pos wf all_tiles_lt that] .
    then show ?thesis using flat_index_bounds [OF wf i] by (simp add: in_fb_def)
  qed
  have tiles: "0 \<le> tile_x0 TILE fb tid \<and> tile_x1 TILE fb tid \<le> fb_W fb \<and>
            0 \<le> tile_y0 TILE fb tid \<and> tile_y1 TILE fb tid \<le> fb_H fb \<and>
            (\<forall>(x, y, c) \<in> set (tile_stores TILE P (binning TILE P fb) fb tid).
               tile_x0 TILE fb tid \<le> x \<and> x < tile_x1 TILE fb tid \<and>
               tile_y0 TILE fb tid \<le> y \<and> y < tile_y1 TILE fb tid)"
    if "tid < nat (total_tiles TILE fb)" for tid
    using tile_rect_in_fb [OF TILE_pos wf that]
    by (auto simp: set_tile_stores in_tile_def)
  obtain fb' where r: "render_circles_tiled_omp P fb = Some fb'" "wf_fb fb'"
    "fb_W fb' = fb_W fb" "fb_H fb' = fb_H fb"
    using render_omp_pixel [OF wf, of P] by blast
  have "length (fb_pix fb') = length (fb_pix fb)" using r(2,3,4) wf by (simp add: wf_fb_def)
  then have ex: "\<exists>fb'. render_circles_tiled_omp P fb = Some fb' \<and>
                fb_W fb' = fb_W fb \<and> fb_H fb' = fb_H fb \<and>
                length (fb_pix fb') = length (fb_pix fb)" using r by blast
  show ?thesis using link inb tiles ex by blast
qed

theorem write_safety_witness:
  "\<exists>fb'. render_circles_tiled_omp straddle_P scene_fb = Some fb' \<and>
         fb_W fb' = 64 \<and> fb_H fb' = 64 \<and> length (fb_pix fb') = 4096"
proof -
  have h: "1 \<le> fb_W scene_fb" "1 \<le> fb_H scene_fb"
    "length (fb_pix scene_fb) = nat (fb_W scene_fb * fb_H scene_fb)"
    by (simp_all add: scene_fb_def)
  have v: "fb_W scene_fb = 64" "fb_H scene_fb = 64" "length (fb_pix scene_fb) = 4096"
    by (simp_all add: scene_fb_def)
  have w: "wf_particles straddle_P" by (simp add: wf_particles_def straddle_P_def)
  show ?thesis using write_safety [OF h w] unfolding v by blast
qed

text \<open>
  C3. For a tile edge \<open>T > 0\<close> and a well-formed framebuffer: tile \<open>tid\<close> has the rectangle
  \<open>[tx * T, min (tx * T + T) W) \<times> [ty * T, min (ty * T + T) H)\<close> with \<open>tx = tid mod tiles_x\<close>
  and \<open>ty = tid div tiles_x\<close>; two tiles that share a pixel are the same tile; a pixel
  lies in the framebuffer exactly when it lies in some tile; and processing the tiles in
  any order that is a permutation of the tile indices gives the result of processing
  them in ascending order.
\<close>

theorem tiles_partition_order_independent:
  assumes "0 < T" "wf_fb fb" "wf_particles P"
  shows "(\<forall>tid < nat (total_tiles T fb).
            tile_x0 T fb tid = (int tid mod tiles_x T fb) * T \<and>
            tile_x1 T fb tid = min ((int tid mod tiles_x T fb) * T + T) (fb_W fb) \<and>
            tile_y0 T fb tid = (int tid div tiles_x T fb) * T \<and>
            tile_y1 T fb tid = min ((int tid div tiles_x T fb) * T + T) (fb_H fb) \<and>
            int tid mod tiles_x T fb < tiles_x T fb \<and> int tid div tiles_x T fb < tiles_y T fb) \<and>
         (\<forall>tid tid' x y. tid < nat (total_tiles T fb) \<and> tid' < nat (total_tiles T fb) \<and>
            in_tile T fb tid x y \<and> in_tile T fb tid' x y \<longrightarrow> tid = tid') \<and>
         (\<forall>x y. in_fb fb x y \<longleftrightarrow> (\<exists>tid < nat (total_tiles T fb). in_tile T fb tid x y)) \<and>
         (\<forall>order. distinct order \<and> set order = {0..<nat (total_tiles T fb)} \<longrightarrow>
            render_tiles_in_order T P order fb = render_circles_tiled T P fb) \<and>
         render_circles_tiled T P fb = render_tiles_in_order T P [0..<nat (total_tiles T fb)] fb"
proof (intro conjI allI impI)
  fix tid assume t: "tid < nat (total_tiles T fb)"
  note d = tid_decode [OF assms(1,2) t]
  show "tile_x0 T fb tid = (int tid mod tiles_x T fb) * T"
    "tile_x1 T fb tid = min ((int tid mod tiles_x T fb) * T + T) (fb_W fb)"
    "tile_y0 T fb tid = (int tid div tiles_x T fb) * T"
    "tile_y1 T fb tid = min ((int tid div tiles_x T fb) * T + T) (fb_H fb)"
    by (simp_all add: tile_x0_def tile_x1_def tile_y0_def tile_y1_def d(2,3))
  show "int tid mod tiles_x T fb < tiles_x T fb" "int tid div tiles_x T fb < tiles_y T fb"
    using d by simp_all
next
  fix tid tid' x y
  assume h: "tid < nat (total_tiles T fb) \<and> tid' < nat (total_tiles T fb) \<and>
            in_tile T fb tid x y \<and> in_tile T fb tid' x y"
  then have i: "in_fb fb x y" using in_tile_in_fb [OF assms(1,2)] by blast
  have "tid = tile_of T fb x y" "tid' = tile_of T fb x y"
    using h in_tile_iff [OF assms(1,2) _ i, of tid] in_tile_iff [OF assms(1,2) _ i, of tid'] by blast+
  then show "tid = tid'" by simp
next
  fix x y
  show "in_fb fb x y \<longleftrightarrow> (\<exists>tid < nat (total_tiles T fb). in_tile T fb tid x y)"
  proof
    assume i: "in_fb fb x y"
    have "in_tile T fb (tile_of T fb x y) x y"
      using in_tile_iff [OF assms(1,2) tile_of_lt_total [OF assms(1,2) i] i] by simp
    then show "\<exists>tid < nat (total_tiles T fb). in_tile T fb tid x y"
      using tile_of_lt_total [OF assms(1,2) i] by blast
  next
    assume "\<exists>tid < nat (total_tiles T fb). in_tile T fb tid x y"
    then show "in_fb fb x y" using in_tile_in_fb [OF assms(1,2)] by blast
  qed
next
  fix order assume "distinct order \<and> set order = {0..<nat (total_tiles T fb)}"
  then show "render_tiles_in_order T P order fb = render_circles_tiled T P fb"
    using render_order_eq [OF assms(1,2)] by blast
next
  show "render_circles_tiled T P fb = render_tiles_in_order T P [0..<nat (total_tiles T fb)] fb"
    by (simp add: render_circles_tiled_def)
qed

theorem tiles_partition_order_independent_witness:
  "render_tiles_in_order TILE straddle_P [3, 1, 0, 2] scene_fb =
   render_circles_tiled TILE straddle_P scene_fb"
proof -
  have "distinct [3, 1, 0, 2::nat] \<and> set [3, 1, 0, 2::nat] = {0..<nat (total_tiles TILE scene_fb)}"
    by (auto simp: total_tiles_scene)
  moreover have "wf_particles straddle_P" by (simp add: wf_particles_def straddle_P_def)
  ultimately show ?thesis
    using tiles_partition_order_independent [OF TILE_pos wf_scene_fb, of straddle_P] by blast
qed



text \<open>
  C5. For a well-formed framebuffer, a rectangle \<open>[x0, x1) \<times> [y0, y1)\<close> contained in it,
  and \<open>0 \<le> r \<le> 2 ^ 26\<close> (the radii for which the double-precision square root of the
  source is exact): \<open>draw_circle_clipped_to_tile\<close> is defined, keeps the dimensions, sets to
  \<open>c\<close> exactly the pixels with \<open>x0 \<le> x \<le> x1 - 1\<close>, \<open>y0 \<le> y \<le> y1 - 1\<close> and
  \<open>(x - cx)\<^sup>2 + (y - cy)\<^sup>2 \<le> r\<^sup>2\<close>, and leaves every other pixel unchanged; its stores are
  the rows \<open>[cy - r, cy + r] \<inter> [y0, y1 - 1]\<close> with the spans
  \<open>[cx - dx, cx + dx] \<inter> [x0, x1 - 1]\<close>, \<open>dx = \<lfloor>sqrt (r\<^sup>2 - dy\<^sup>2)\<rfloor>\<close>.
\<close>

theorem draw_circle_paints_clipped_disc:
  assumes "wf_fb fb"
    and "\<forall>x y. x0 \<le> x \<and> x < x1 \<and> y0 \<le> y \<and> y < y1 \<longrightarrow> in_fb fb x y"
    and "0 \<le> r"
    and "r \<le> 2 ^ 26"
  shows "\<exists>fb'. draw_circle_clipped_to_tile fb cx cy r c x0 y0 x1 y1 = Some fb' \<and>
           fb_W fb' = fb_W fb \<and> fb_H fb' = fb_H fb \<and> length (fb_pix fb') = length (fb_pix fb) \<and>
           (\<forall>x y. in_fb fb x y \<longrightarrow>
              px fb' x y =
                (if x0 \<le> x \<and> x \<le> x1 - 1 \<and> y0 \<le> y \<and> y \<le> y1 - 1 \<and>
                    (x - cx)\<^sup>2 + (y - cy)\<^sup>2 \<le> r\<^sup>2
                 then c else px fb x y)) \<and>
           (\<forall>x y. (x, y) \<in> set (circle_stores cx cy r x0 y0 x1 y1) \<longleftrightarrow>
              max (cy - r) y0 \<le> y \<and> y \<le> min (cy + r) (y1 - 1) \<and>
              max (cx - \<lfloor>sqrt (real_of_int (r * r - (y - cy) * (y - cy)))\<rfloor>) x0 \<le> x \<and>
              x \<le> min (cx + \<lfloor>sqrt (real_of_int (r * r - (y - cy) * (y - cy)))\<rfloor>) (x1 - 1))"
proof -
  let ?ss = "map (\<lambda>(xx, yy). (xx, yy, c)) (circle_stores cx cy r x0 y0 x1 y1)"
  have res: "draw_circle_clipped_to_tile fb cx cy r c x0 y0 x1 y1 = Some (apply_stores ?ss fb)"
    using assms(1,2) by (intro draw_circle_result) simp_all
  have pix: "px (apply_stores ?ss fb) x y =
        (if x0 \<le> x \<and> x \<le> x1 - 1 \<and> y0 \<le> y \<and> y \<le> y1 - 1 \<and> (x - cx)\<^sup>2 + (y - cy)\<^sup>2 \<le> r\<^sup>2
         then c else px fb x y)" if "in_fb fb x y" for x y
    unfolding px_apply_stores [OF assms(1) that] last_write_same_colour set_circle_stores
    using assms(3) by (simp add: in_disc_def power2_eq_square)
  have spans: "(x, y) \<in> set (circle_stores cx cy r x0 y0 x1 y1) \<longleftrightarrow>
        max (cy - r) y0 \<le> y \<and> y \<le> min (cy + r) (y1 - 1) \<and>
        max (cx - \<lfloor>sqrt (real_of_int (r * r - (y - cy) * (y - cy)))\<rfloor>) x0 \<le> x \<and>
        x \<le> min (cx + \<lfloor>sqrt (real_of_int (r * r - (y - cy) * (y - cy)))\<rfloor>) (x1 - 1)" for x y
  proof (cases "max (cy - r) y0 \<le> y \<and> y \<le> min (cy + r) (y1 - 1)")
    case True
    then have "(x, y) \<in> set (circle_stores cx cy r x0 y0 x1 y1) \<longleftrightarrow>
               span_lo cx cy r x0 y \<le> x \<and> x \<le> span_hi cx cy r x1 y"
      using span_iff [of cy r y cx x0 x x1] by (auto simp: set_circle_stores in_disc_def)
    moreover have a: "max (cy - r) y0 \<le> y" and b: "y \<le> min (cy + r) (y1 - 1)"
      using True by simp_all
    ultimately show ?thesis
      unfolding span_real_sqrt [OF a b] using True by simp
  next
    case False
    then have "(x, y) \<notin> set (circle_stores cx cy r x0 y0 x1 y1)"
      using in_disc_bounds(3,4) [of cx cy r x y] by (auto simp: set_circle_stores)
    then show ?thesis using False by blast
  qed
  show ?thesis
    using res pix spans by (intro exI [where x = "apply_stores ?ss fb"]) simp
qed

theorem draw_circle_paints_clipped_disc_witness:
  "\<exists>fb'. draw_circle_clipped_to_tile scene_fb 31 16 10 0xFFFFFFFF 32 0 64 32 = Some fb' \<and>
         px fb' 41 16 = 0xFFFFFFFF \<and> px fb' 31 16 = px scene_fb 31 16 \<and>
         px fb' 40 23 = px scene_fb 40 23"
proof -
  have inside: "\<forall>x y. 32 \<le> x \<and> x < 64 \<and> 0 \<le> y \<and> y < 32 \<longrightarrow> in_fb scene_fb x y"
    by (simp add: in_fb_def scene_fb_def)
  have inb: "in_fb scene_fb 41 16" "in_fb scene_fb 31 16" "in_fb scene_fb 40 23"
    by (simp_all add: in_fb_def scene_fb_def)
  obtain fb' where r: "draw_circle_clipped_to_tile scene_fb 31 16 10 0xFFFFFFFF 32 0 64 32 = Some fb'"
    and p: "\<forall>x y. in_fb scene_fb x y \<longrightarrow>
              px fb' x y =
                (if 32 \<le> x \<and> x \<le> 64 - 1 \<and> 0 \<le> y \<and> y \<le> 32 - 1 \<and>
                    (x - 31)\<^sup>2 + (y - 16)\<^sup>2 \<le> 10\<^sup>2
                 then 0xFFFFFFFF else px scene_fb x y)"
    using draw_circle_paints_clipped_disc [OF wf_scene_fb inside, of 10 31 16 "0xFFFFFFFF"] by auto
  have "px fb' 41 16 = 0xFFFFFFFF" using p inb(1) by simp
  moreover have "px fb' 31 16 = px scene_fb 31 16" using p inb(2) by simp
  moreover have "px fb' 40 23 = px scene_fb 40 23" using p inb(3) by simp
  ultimately show ?thesis using r by blast
qed

text \<open>
  C6. For a well-formed framebuffer and particle store, a particle \<open>k\<close> whose bounding
  square has no pixel in common with \<open>[0, W) \<times> [0, H)\<close> has no effect: the pass is defined
  and returns the framebuffer it returns for the store without particle \<open>k\<close>.
\<close>

theorem offscreen_particle_no_effect:
  assumes "wf_fb fb" "wf_particles P" "k < P_n P"
    and "\<not> square_meets P k 0 0 (fb_W fb) (fb_H fb)"
  shows "render_circles_tiled_omp (remove_particle k P) fb = render_circles_tiled_omp P fb \<and>
         (\<exists>fb'. render_circles_tiled_omp P fb = Some fb')"
proof -
  obtain fb1 where r1: "render_circles_tiled_omp P fb = Some fb1" "wf_fb fb1"
    "fb_W fb1 = fb_W fb" "fb_H fb1 = fb_H fb"
    and p1: "\<forall>x y. in_fb fb x y \<longrightarrow> px fb1 x y = paint P x y (px fb x y)"
    using render_omp_pixel [OF assms(1), of P] by blast
  obtain fb2 where r2: "render_circles_tiled_omp (remove_particle k P) fb = Some fb2" "wf_fb fb2"
    "fb_W fb2 = fb_W fb" "fb_H fb2 = fb_H fb"
    and p2: "\<forall>x y. in_fb fb x y \<longrightarrow> px fb2 x y = paint (remove_particle k P) x y (px fb x y)"
    using render_omp_pixel [OF assms(1), of "remove_particle k P"] by blast
  have same: "paint (remove_particle k P) x y v = paint P x y v" if "in_fb fb x y" for x y v
    using covers_meets_fb [OF that, of P k] assms(4)
    by (intro paint_remove_particle [OF assms(2,3)]) blast
  have "fb2 = fb1"
  proof (rule fb_ext [OF r1(2) r2(2)])
    show "fb_W fb2 = fb_W fb1" "fb_H fb2 = fb_H fb1" using r1 r2 by simp_all
    fix x y assume "in_fb fb1 x y"
    then have i: "in_fb fb x y" using r1 by (simp add: in_fb_def)
    show "px fb2 x y = px fb1 x y" using p1 p2 i same by simp
  qed
  then have e: "render_circles_tiled_omp (remove_particle k P) fb = render_circles_tiled_omp P fb"
    using r1 r2 by simp
  have "\<exists>fb'. render_circles_tiled_omp P fb = Some fb'" using r1(1) by blast
  then show ?thesis using e by simp
qed

theorem offscreen_particle_no_effect_witness:
  "render_circles_tiled_omp (remove_particle 0 two_P) scene_fb = render_circles_tiled_omp two_P scene_fb \<and>
   remove_particle 0 two_P = \<lparr>P_n = 1, P_x = [12], P_y = [12], P_r = [5], P_color = [0xFFFF0000]\<rparr>"
proof -
  have wf: "wf_particles two_P" by (simp add: wf_particles_def two_P_def)
  have k: "0 < P_n two_P" by (simp add: two_P_def)
  have off: "\<not> square_meets two_P 0 0 0 (fb_W scene_fb) (fb_H scene_fb)"
    by (simp add: square_meets_def two_P_def p_cx_def p_cy_def lround_def scene_fb_def)
  have "remove_particle 0 two_P = \<lparr>P_n = 1, P_x = [12], P_y = [12], P_r = [5], P_color = [0xFFFF0000]\<rparr>"
    by (simp add: remove_particle_def two_P_def)
  then show ?thesis using offscreen_particle_no_effect [OF wf_scene_fb wf k off] by simp
qed

text \<open>
  C7. Every bin lists the particles binned to its tile in ascending index order. With
  all radii at most \<open>2 ^ 26\<close> (where the double-precision square root of the source is
  exact), at a pixel of the framebuffer covered by particle \<open>j\<close> and by no particle of
  higher index, particle \<open>j\<close> is in the bin of the pixel's tile and the pass leaves the
  colour of \<open>j\<close> in the pixel. The witness is scenario 2: pixel \<open>(12, 12)\<close> ends up blue when \<open>A\<close>
  precedes \<open>B\<close>, and red when the order is swapped.
\<close>

theorem last_write_wins:
  assumes "wf_fb fb" "in_fb fb x y" "j < P_n P" "covers P j x y"
    and "\<forall>k. j < k \<and> k < P_n P \<longrightarrow> \<not> covers P k x y"
    and "wf_particles P"
    and "\<forall>i < P_n P. P_r P ! i \<le> 2 ^ 26"
  shows "(\<forall>tid < nat (total_tiles TILE fb).
            binning TILE P fb ! tid = filter (binned TILE P fb tid) [0..<P_n P] \<and>
            sorted_wrt (<) (binning TILE P fb ! tid)) \<and>
         j \<in> set (binning TILE P fb ! tile_of TILE fb x y) \<and>
         (\<exists>fb'. render_circles_tiled_omp P fb = Some fb' \<and> px fb' x y = P_color P ! j)"
proof -
  have asc: "binning TILE P fb ! tid = filter (binned TILE P fb tid) [0..<P_n P] \<and>
             sorted_wrt (<) (binning TILE P fb ! tid)"
    if "tid < nat (total_tiles TILE fb)" for tid
    unfolding binning_nth [OF that] by (simp add: sorted_wrt_filter)
  have t: "tile_of TILE fb x y < nat (total_tiles TILE fb)"
    by (rule tile_of_lt_total [OF TILE_pos assms(1,2)])
  have inbin: "j \<in> set (binning TILE P fb ! tile_of TILE fb x y)"
    using covers_binned [OF TILE_pos assms(1,2,4)] assms(3) by (simp add: mem_binning [OF t])
  obtain fb' where r: "render_circles_tiled_omp P fb = Some fb'"
    and p: "px fb' x y = paint P x y (px fb x y)"
    using render_omp_pixel [OF assms(1), of P] assms(2) by blast
  have "px fb' x y = P_color P ! j" unfolding p by (rule paint_last [OF assms(3,4,5)])
  then show ?thesis using asc inbin r by blast
qed

theorem last_write_wins_witness:
  "(\<exists>fb'. render_circles_tiled_omp red_blue_P scene_fb = Some fb' \<and> px fb' 12 12 = 0xFFFF0000) \<and>
   (\<exists>fb'. render_circles_tiled_omp blue_red_P scene_fb = Some fb' \<and> px fb' 12 12 = 0xFF0000FF)"
proof -
  have i: "in_fb scene_fb 12 12" by (simp add: in_fb_def scene_fb_def)
  have n: "1 < P_n red_blue_P" "1 < P_n blue_red_P" by (simp_all add: red_blue_P_def blue_red_P_def)
  have c1: "covers red_blue_P 1 12 12"
    by (simp add: red_blue_P_def covers_def in_disc_def p_cx_def p_cy_def lround_def)
  have c2: "covers blue_red_P 1 12 12"
    by (simp add: blue_red_P_def covers_def in_disc_def p_cx_def p_cy_def lround_def)
  have "\<not> (1 < k \<and> k < P_n red_blue_P)" "\<not> (1 < k \<and> k < P_n blue_red_P)" for k
    by (simp_all add: red_blue_P_def blue_red_P_def)
  then have l1: "\<forall>k. 1 < k \<and> k < P_n red_blue_P \<longrightarrow> \<not> covers red_blue_P k 12 12"
    and l2: "\<forall>k. 1 < k \<and> k < P_n blue_red_P \<longrightarrow> \<not> covers blue_red_P k 12 12"
    by blast+
  have v: "P_color red_blue_P ! 1 = 0xFFFF0000" "P_color blue_red_P ! 1 = 0xFF0000FF"
    by (simp_all add: red_blue_P_def blue_red_P_def)
  have w: "wf_particles red_blue_P" "wf_particles blue_red_P"
    by (simp_all add: wf_particles_def red_blue_P_def blue_red_P_def)
  have b: "\<forall>i < P_n red_blue_P. P_r red_blue_P ! i \<le> 2 ^ 26"
    "\<forall>i < P_n blue_red_P. P_r blue_red_P ! i \<le> 2 ^ 26"
    by (simp_all add: red_blue_P_def blue_red_P_def less_Suc_eq numeral_2_eq_2)
  show ?thesis
    using last_write_wins [OF wf_scene_fb i n(1) c1 l1 w(1) b(1)]
      last_write_wins [OF wf_scene_fb i n(2) c2 l2 w(2) b(2)]
    unfolding v by blast
qed

text \<open>
  C8 (as amended). Scenario 1 on the 64 by 64 framebuffer cleared to \<open>0x00000000\<close>: the
  pass paints white exactly the pixels with \<open>(x - 32)\<^sup>2 + (y - 32)\<^sup>2 \<le> 40\<^sup>2\<close> and leaves
  every other pixel at the background colour; the centre pixel is white and the four
  corner pixels keep the background colour.
\<close>

theorem scenario1_paints_disc:
  "\<exists>fb'. render_circles_tiled_omp scenario1_P scene_fb = Some fb' \<and>
     (\<forall>x y. 0 \<le> x \<and> x < 64 \<and> 0 \<le> y \<and> y < 64 \<longrightarrow>
        px fb' x y = (if (x - 32)\<^sup>2 + (y - 32)\<^sup>2 \<le> 40\<^sup>2 then 0xFFFFFFFF else 0x00000000)) \<and>
     px fb' 32 32 = 0xFFFFFFFF \<and>
     px fb' 0 0 = 0 \<and> px fb' 63 0 = 0 \<and> px fb' 0 63 = 0 \<and> px fb' 63 63 = 0"
proof -
  obtain fb' where r: "render_circles_tiled_omp scenario1_P scene_fb = Some fb'"
    and p: "\<forall>x y. in_fb scene_fb x y \<longrightarrow>
        px fb' x y = (if (x - 32)\<^sup>2 + (y - 32)\<^sup>2 \<le> 1600 then 0xFFFFFFFF else 0)"
    using scenario1_pixels by blast
  have a: "\<forall>x y. 0 \<le> x \<and> x < 64 \<and> 0 \<le> y \<and> y < 64 \<longrightarrow>
        px fb' x y = (if (x - 32)\<^sup>2 + (y - 32)\<^sup>2 \<le> 40\<^sup>2 then 0xFFFFFFFF else 0x00000000)"
    using p by (simp add: in_scene_fb)
  have "px fb' 32 32 = 0xFFFFFFFF" "px fb' 0 0 = 0" "px fb' 63 0 = 0" "px fb' 0 63 = 0" "px fb' 63 63 = 0"
    using p by (simp_all add: in_scene_fb)
  then show ?thesis using r a by blast
qed

text \<open>
  The claim as stated fails: the corner \<open>(0, 0)\<close> is at squared distance
  \<open>32\<^sup>2 + 32\<^sup>2 = 2048 > 1600\<close> from the centre, outside the circle, and keeps the
  background colour.
\<close>

theorem scenario1_corner_counterexample:
  "pixel_after (render_circles_tiled_omp scenario1_P scene_fb) 0 0 = Some 0x00000000"
proof -
  obtain fb' where r: "render_circles_tiled_omp scenario1_P scene_fb = Some fb'"
    and p: "\<forall>x y. in_fb scene_fb x y \<longrightarrow>
        px fb' x y = (if (x - 32)\<^sup>2 + (y - 32)\<^sup>2 \<le> 1600 then 0xFFFFFFFF else 0)"
    using scenario1_pixels by blast
  have "px fb' 0 0 = 0" using p by (simp add: in_scene_fb)
  then show ?thesis by (simp add: pixel_after_def r)
qed

theorem scenario1_paints_disc_witness:
  "pixel_after (render_circles_tiled_omp scenario1_P scene_fb) 32 0 = Some 0xFFFFFFFF \<and>
   pixel_after (render_circles_tiled_omp scenario1_P scene_fb) 2 2 = Some 0"
proof -
  obtain fb' where r: "render_circles_tiled_omp scenario1_P scene_fb = Some fb'"
    and p: "\<forall>x y. 0 \<le> x \<and> x < 64 \<and> 0 \<le> y \<and> y < 64 \<longrightarrow>
        px fb' x y = (if (x - 32)\<^sup>2 + (y - 32)\<^sup>2 \<le> 40\<^sup>2 then 0xFFFFFFFF else 0x00000000)"
    using scenario1_paints_disc by blast
  have "px fb' 32 0 = 0xFFFFFFFF" "px fb' 2 2 = 0" using p by simp_all
  then show ?thesis by (simp add: pixel_after_def r)
qed

text \<open>
  C9. For a well-formed framebuffer the pass is defined; every store it executes lies in
  a clipped scanline span of a particle binned to the storing tile; a pixel that no
  store addresses keeps the value it had before the pass, and so does, with all radii
  at most \<open>2 ^ 26\<close> (where the double-precision square root of the source is exact), a
  pixel that no particle's disc covers; with zero particles the pass returns the
  framebuffer unchanged.
\<close>

theorem no_implicit_clear:
  assumes "wf_fb fb" "wf_particles P"
  shows "\<exists>fb'. render_circles_tiled_omp P fb = Some fb' \<and>
           (\<forall>(x, y, c) \<in> set (render_stores TILE P [0..<nat (total_tiles TILE fb)] fb).
              \<exists>tid idx. tid < nat (total_tiles TILE fb) \<and> idx \<in> set (binning TILE P fb ! tid) \<and>
                idx < P_n P \<and> c = P_color P ! idx \<and>
                (x, y) \<in> set (circle_stores (p_cx P idx) (p_cy P idx) (P_r P ! idx)
                                 (tile_x0 TILE fb tid) (tile_y0 TILE fb tid)
                                 (tile_x1 TILE fb tid) (tile_y1 TILE fb tid))) \<and>
           (\<forall>x y. in_fb fb x y \<and>
                  (\<forall>c. (x, y, c) \<notin> set (render_stores TILE P [0..<nat (total_tiles TILE fb)] fb))
              \<longrightarrow> px fb' x y = px fb x y) \<and>
           ((\<forall>i < P_n P. P_r P ! i \<le> 2 ^ 26) \<longrightarrow>
              (\<forall>x y. in_fb fb x y \<and> (\<forall>i < P_n P. \<not> covers P i x y) \<longrightarrow>
                 px fb' x y = px fb x y)) \<and>
           (P_n P = 0 \<longrightarrow> fb' = fb)"
proof -
  let ?order = "[0..<nat (total_tiles TILE fb)]"
  let ?ss = "render_stores TILE P ?order fb"
  have res: "render_circles_tiled_omp P fb = Some (apply_stores ?ss fb)"
    unfolding render_circles_tiled_omp_def render_circles_tiled_def
    by (rule render_is_apply [OF TILE_pos assms(1) all_tiles_lt])
  have src: "\<exists>tid idx. tid < nat (total_tiles TILE fb) \<and> idx \<in> set (binning TILE P fb ! tid) \<and>
                idx < P_n P \<and> c = P_color P ! idx \<and>
                (x, y) \<in> set (circle_stores (p_cx P idx) (p_cy P idx) (P_r P ! idx)
                                 (tile_x0 TILE fb tid) (tile_y0 TILE fb tid)
                                 (tile_x1 TILE fb tid) (tile_y1 TILE fb tid))"
    if mem: "(x, y, c) \<in> set ?ss" for x y c
  proof -
    obtain tid idx where tl: "tid < nat (total_tiles TILE fb)"
      and "idx \<in> set (binning TILE P fb ! tid)" "c = P_color P ! idx"
      "(x, y) \<in> set (circle_stores (p_cx P idx) (p_cy P idx) (P_r P ! idx)
                                 (tile_x0 TILE fb tid) (tile_y0 TILE fb tid)
                                 (tile_x1 TILE fb tid) (tile_y1 TILE fb tid))"
      using mem unfolding set_render_stores_spans by auto
    moreover have "idx < P_n P" using calculation(2) by (simp add: mem_binning [OF tl])
    ultimately show ?thesis using tl by blast
  qed
  have untouched: "px (apply_stores ?ss fb) x y = px fb x y"
    if "in_fb fb x y \<and> (\<forall>c. (x, y, c) \<notin> set ?ss)" for x y
    using that by (simp add: px_apply_stores [OF assms(1)] last_write_untouched)
  have pix: "px (apply_stores ?ss fb) x y = paint P x y (px fb x y)" if "in_fb fb x y" for x y
    using render_omp_pixel [OF assms(1), of P] res that by auto
  have uncovered: "px (apply_stores ?ss fb) x y = px fb x y"
    if "in_fb fb x y \<and> (\<forall>i < P_n P. \<not> covers P i x y)" for x y
    using that pix by (simp add: paint_uncovered)
  have none: "apply_stores ?ss fb = fb" if "P_n P = 0"
  proof (rule fb_ext [OF assms(1)])
    show "wf_fb (apply_stores ?ss fb)" using assms(1) by simp
    show "fb_W (apply_stores ?ss fb) = fb_W fb" "fb_H (apply_stores ?ss fb) = fb_H fb" by simp_all
    fix x y assume "in_fb fb x y"
    then show "px (apply_stores ?ss fb) x y = px fb x y" using uncovered that by simp
  qed
  show ?thesis
    using res src untouched uncovered none
    by (intro exI [where x = "apply_stores ?ss fb"]) blast
qed

theorem no_implicit_clear_witness:
  "(\<exists>fb'. render_circles_tiled_omp straddle_P scene_fb = Some fb' \<and> px fb' 5 5 = px scene_fb 5 5) \<and>
   render_circles_tiled_omp empty_P scene_fb = Some scene_fb"
proof -
  have i: "in_fb scene_fb 5 5" by (simp add: in_fb_def scene_fb_def)
  have w: "wf_particles straddle_P" "wf_particles empty_P"
    by (simp_all add: wf_particles_def straddle_P_def empty_P_def)
  have b: "\<forall>i < P_n straddle_P. P_r straddle_P ! i \<le> 2 ^ 26"
    by (simp add: straddle_P_def)
  have nc: "\<forall>i < P_n straddle_P. \<not> covers straddle_P i 5 5"
    by (simp add: straddle_P_def covers_def in_disc_def p_cx_def p_cy_def lround_def)
  have "\<exists>fb'. render_circles_tiled_omp straddle_P scene_fb = Some fb' \<and> px fb' 5 5 = px scene_fb 5 5"
    using no_implicit_clear [OF wf_scene_fb w(1)] i nc b by blast
  moreover have "render_circles_tiled_omp empty_P scene_fb = Some scene_fb"
    using no_implicit_clear [OF wf_scene_fb w(2)] by (auto simp: empty_P_def)
  ultimately show ?thesis by simp
qed

text \<open>
  C10. After the binning pass every bin is strictly increasing in particle index, so it
  contains any particle index at most once, for every particle store, framebuffer and
  tile edge.
\<close>

theorem bins_strictly_increasing:
  assumes "tid < length (binning T P fb)" "wf_particles P"
  shows "sorted_wrt (<) (binning T P fb ! tid) \<and> distinct (binning T P fb ! tid) \<and>
         count_list (binning T P fb ! tid) i \<le> 1"
proof -
  have t: "tid < nat (total_tiles T fb)" using assms(1) by (simp add: binning_length)
  have s: "sorted_wrt (<) (binning T P fb ! tid)"
    unfolding binning_nth [OF t] by (intro sorted_wrt_filter) (rule sorted_wrt_upt)
  have d: "distinct (binning T P fb ! tid)" unfolding binning_nth [OF t] by simp
  have "count_list (binning T P fb ! tid) i \<le> 1"
    using d by (rule count_list_distinct_le1)
  then show ?thesis using s d by simp
qed

theorem bins_strictly_increasing_witness:
  "1 < length (binning TILE straddle_P scene_fb) \<and>
   sorted_wrt (<) (binning TILE straddle_P scene_fb ! 1) \<and>
   distinct (binning TILE straddle_P scene_fb ! 1) \<and>
   count_list (binning TILE straddle_P scene_fb ! 1) 0 \<le> 1 \<and>
   binning TILE straddle_P scene_fb ! 1 = [0]"
proof -
  have l: "1 < length (binning TILE straddle_P scene_fb)"
    by (simp add: binning_length total_tiles_scene)
  have "binning TILE straddle_P scene_fb ! 1 = filter (binned TILE straddle_P scene_fb 1) [0..<P_n straddle_P]"
    by (rule binning_nth) (simp add: total_tiles_scene)
  also have "\<dots> = [0]"
    by (simp add: straddle_P_def binned_def in_tile_range_def tiles_x_def tiles_y_def TILE_def
        scene_fb_def cdiv_def p_cx_def p_cy_def lround_def)
  finally show ?thesis
    using l bins_strictly_increasing [OF l, of 0] by (simp add: wf_particles_def straddle_P_def)
qed

end
